theory Spec2Isabelle
  imports Complex_Main "HOL-Library.Multiset"
begin

section \<open>Go values as reflection sees them\<close>

text \<open>
  \<^verbatim>\<open>type Ordering int\<close> with the four constants declared by \<^verbatim>\<open>iota\<close>. Any other
  integer is a legal value of the type and takes the \<^verbatim>\<open>default\<close> branch of every switch.
\<close>

type_synonym Ordering = int

definition Ascending :: Ordering where "Ascending = 0"
definition Descending :: Ordering where "Descending = 1"
definition CaseInsensitiveAscending :: Ordering where "CaseInsensitiveAscending = 2"
definition CaseInsensitiveDescending :: Ordering where "CaseInsensitiveDescending = 3"

text \<open>
  The kinds of \<^verbatim>\<open>reflect.Kind\<close>, in the order of the Go declaration (\<open>IntK\<close> is
  \<^verbatim>\<open>reflect.Int\<close>).
\<close>

datatype Kind =
    Invalid | Bool
  | IntK | Int8 | Int16 | Int32 | Int64
  | Uint | Uint8 | Uint16 | Uint32 | Uint64 | Uintptr
  | Float32 | Float64 | Complex64 | Complex128
  | Array | Chan | Func | Interface | Map | Pointer | Slice | String | Struct
  | UnsafePointer

text \<open>
  A \<^verbatim>\<open>float64\<close> as far as comparison sees it: a finite number, an infinity, or NaN.
  Every comparison with NaN is false.
\<close>

datatype go_float = NaN | NegInf | Finite real | PosInf

fun float_lt :: "go_float \<Rightarrow> go_float \<Rightarrow> bool" where
  "float_lt NaN b = False"
| "float_lt NegInf NaN = False"
| "float_lt NegInf NegInf = False"
| "float_lt NegInf (Finite y) = True"
| "float_lt NegInf PosInf = True"
| "float_lt (Finite x) NaN = False"
| "float_lt (Finite x) NegInf = False"
| "float_lt (Finite x) (Finite y) = (x < y)"
| "float_lt (Finite x) PosInf = True"
| "float_lt PosInf b = False"

definition float_gt :: "go_float \<Rightarrow> go_float \<Rightarrow> bool" where
  "float_gt a b = float_lt b a"

text \<open>\<^verbatim>\<open>math.IsNaN\<close>.\<close>

fun IsNaN :: "go_float \<Rightarrow> bool" where
  "IsNaN NaN = True"
| "IsNaN NegInf = False"
| "IsNaN (Finite x) = False"
| "IsNaN PosInf = False"

type_synonym addr = nat

text \<open>
  The values a slice element, a struct field or a heap cell can hold. Integers and floats
  carry their bit size (\<open>B0\<close> for the plain \<^verbatim>\<open>int\<close> and \<^verbatim>\<open>uint\<close>), a \<^verbatim>\<open>time.Time\<close> is its
  instant, a pointer is the address of a heap cell, a struct is its fields by name.
  \<open>VOther\<close> stands for the kinds the sorter never looks into (complex numbers, channels,
  maps, and so on).
\<close>

datatype bits = B0 | B8 | B16 | B32 | B64

datatype fbits = F32 | F64

datatype other = OInvalid | OComplex64 | OComplex128 | OArray | OChan | OFunc
  | OInterface | OMap | OSlice | OUnsafePointer

datatype val =
    VBool bool
  | VInt bits int
  | VUint bits nat
  | VUintptr nat
  | VFloat fbits go_float
  | VString string
  | VTime int
  | VStruct "(string \<times> val) list"
  | VPtr addr
  | VOther other

type_synonym heap = "addr \<rightharpoonup> val"

fun Kind_other :: "other \<Rightarrow> Kind" where
  "Kind_other OInvalid = Invalid"
| "Kind_other OComplex64 = Complex64"
| "Kind_other OComplex128 = Complex128"
| "Kind_other OArray = Array"
| "Kind_other OChan = Chan"
| "Kind_other OFunc = Func"
| "Kind_other OInterface = Interface"
| "Kind_other OMap = Map"
| "Kind_other OSlice = Slice"
| "Kind_other OUnsafePointer = UnsafePointer"

text \<open>\<^verbatim>\<open>Value.Kind()\<close>.\<close>

fun Kind_of :: "val \<Rightarrow> Kind" where
  "Kind_of (VBool b) = Bool"
| "Kind_of (VInt w n) =
     (case w of B0 \<Rightarrow> IntK | B8 \<Rightarrow> Int8 | B16 \<Rightarrow> Int16 | B32 \<Rightarrow> Int32 | B64 \<Rightarrow> Int64)"
| "Kind_of (VUint w n) =
     (case w of B0 \<Rightarrow> Uint | B8 \<Rightarrow> Uint8 | B16 \<Rightarrow> Uint16 | B32 \<Rightarrow> Uint32 | B64 \<Rightarrow> Uint64)"
| "Kind_of (VUintptr n) = Uintptr"
| "Kind_of (VFloat w x) = (case w of F32 \<Rightarrow> Float32 | F64 \<Rightarrow> Float64)"
| "Kind_of (VString s) = String"
| "Kind_of (VTime t) = Struct"
| "Kind_of (VStruct fs) = Struct"
| "Kind_of (VPtr a) = Pointer"
| "Kind_of (VOther k) = Kind_other k"

text \<open>
  \<^verbatim>\<open>Value.Type()\<close>, as far as the sorter uses it: the only type it compares with is
  \<^verbatim>\<open>t_time = reflect.TypeOf(time.Time{})\<close>.
\<close>

datatype rtype = TimeType | OtherType Kind

definition t_time :: rtype where "t_time = TimeType"

fun Type_of :: "val \<Rightarrow> rtype" where
  "Type_of (VTime t) = TimeType"
| "Type_of v = OtherType (Kind_of v)"

text \<open>
  Every way the code can panic. \<open>IndexOutOfRange\<close> is the runtime panic of an index
  expression or of \<^verbatim>\<open>Value.Index\<close>; \<open>ValueError\<close> is the panic of a \<^verbatim>\<open>reflect.Value\<close>
  accessor called on the wrong kind (or of a failed type assertion); \<open>CannotSortByType\<close>
  and \<open>InvalidOrdering\<close> are the two explicit \<^verbatim>\<open>panic\<close> calls of \<^verbatim>\<open>Sorter.Sort\<close>, the second
  with the words the message ends in.
\<close>

datatype error =
    IndexOutOfRange
  | ValueError
  | NilDereference
  | UnknownField string
  | CannotSortByType rtype
  | InvalidOrdering Ordering string

text \<open>Sequencing of steps that may panic: the first panic wins.\<close>

definition bnd :: "error + 'a \<Rightarrow> ('a \<Rightarrow> error + 'b) \<Rightarrow> error + 'b" where
  "bnd m f = (case m of Inl e \<Rightarrow> Inl e | Inr x \<Rightarrow> f x)"

text \<open>
  The accessors of \<^verbatim>\<open>reflect.Value\<close> the comparisons use. \<^verbatim>\<open>String()\<close> never panics: on
  a value that is not a string it returns a description of the value.
\<close>

fun String_of :: "val \<Rightarrow> string" where
  "String_of (VString s) = s"
| "String_of v = ''<Value>''"

fun Bool_of :: "val \<Rightarrow> error + bool" where
  "Bool_of (VBool b) = Inr b"
| "Bool_of v = Inl ValueError"

fun Int_of :: "val \<Rightarrow> error + int" where
  "Int_of (VInt w n) = Inr n"
| "Int_of v = Inl ValueError"

fun Uint_of :: "val \<Rightarrow> error + nat" where
  "Uint_of (VUint w n) = Inr n"
| "Uint_of (VUintptr n) = Inr n"
| "Uint_of v = Inl ValueError"

fun Float_of :: "val \<Rightarrow> error + go_float" where
  "Float_of (VFloat w x) = Inr x"
| "Float_of v = Inl ValueError"

text \<open>\<^verbatim>\<open>v.Interface().(time.Time)\<close>.\<close>

fun Time_of :: "val \<Rightarrow> error + int" where
  "Time_of (VTime t) = Inr t"
| "Time_of v = Inl ValueError"

text \<open>
  Go compares strings byte by byte. \<^verbatim>\<open>strings.ToLower\<close> is modelled on bytes: the
  ASCII capitals are lowered, every other byte is kept (runes outside ASCII are not
  modelled).
\<close>

fun str_lt :: "string \<Rightarrow> string \<Rightarrow> bool" where
  "str_lt [] [] = False"
| "str_lt [] (y # ys) = True"
| "str_lt (x # xs) [] = False"
| "str_lt (x # xs) (y # ys) =
     ((of_char x :: nat) < of_char y \<or> (x = y \<and> str_lt xs ys))"

definition ToLower_byte :: "char \<Rightarrow> char" where
  "ToLower_byte c =
     (if (65::nat) \<le> of_char c \<and> (of_char c :: nat) \<le> 90
      then char_of ((of_char c :: nat) + 32) else c)"

definition ToLower :: "string \<Rightarrow> string" where
  "ToLower s = map ToLower_byte s"


section \<open>Storage, key handles and getters\<close>

text \<open>
  The slice being sorted is a row of slots; an element held by reference is a \<open>VPtr\<close> in
  its slot and its struct lives in a heap cell. A \<^verbatim>\<open>reflect.Value\<close> for an extracted key
  does not hold a copy of the key: it designates storage (a slot of the slice, or the heap
  cell a pointer led to when the key was extracted) and the fields to follow from there,
  and every accessor reads that storage at the time of the call. This is what the
  comment in \<^verbatim>\<open>Sorter.Swap\<close> relies on: \<^verbatim>\<open>Swap\<close> writes the slots only.
\<close>

datatype place = Slot nat | Cell addr

datatype Value = Value place "string list"

definition fetch :: "heap \<Rightarrow> val list \<Rightarrow> place \<Rightarrow> error + val" where
  "fetch H xs p =
     (case p of
        Slot i \<Rightarrow> if i < length xs then Inr (xs ! i) else Inl IndexOutOfRange
      | Cell a \<Rightarrow> (case H a of None \<Rightarrow> Inl NilDereference | Some v \<Rightarrow> Inr v))"

fun FieldByName :: "val \<Rightarrow> string \<Rightarrow> error + val" where
  "FieldByName (VStruct fs) name =
     (case map_of fs name of None \<Rightarrow> Inl (UnknownField name) | Some v \<Rightarrow> Inr v)"
| "FieldByName v name = Inl ValueError"

fun walk :: "string list \<Rightarrow> val \<Rightarrow> error + val" where
  "walk [] v = Inr v"
| "walk (name # names) v = bnd (FieldByName v name) (walk names)"

text \<open>What a key handle reads now.\<close>

fun load :: "heap \<Rightarrow> val list \<Rightarrow> Value \<Rightarrow> error + val" where
  "load H xs (Value p names) = bnd (fetch H xs p) (walk names)"

fun collect :: "(error + 'a) list \<Rightarrow> error + 'a list" where
  "collect [] = Inr []"
| "collect (m # ms) = bnd m (\<lambda>x. bnd (collect ms) (\<lambda>xs. Inr (x # xs)))"

text \<open>
  \<^verbatim>\<open>type Getter func(reflect.Value) []reflect.Value\<close>: from the slice (and the memory
  behind it) to one key handle per element.
\<close>

type_synonym Getter = "heap \<Rightarrow> val list \<Rightarrow> error + Value list"

text \<open>
  Modelled from the spec: the getters (\<^verbatim>\<open>type Getter\<close>, \<^verbatim>\<open>SimpleGetter\<close>, \<^verbatim>\<open>FieldGetter\<close>)
  are declared outside \<^verbatim>\<open>sortutil.go\<close>, which only calls them. The identity getter
  "returns the collection itself reinterpreted as the key sequence": key \<open>i\<close> is slot \<open>i\<close>.
\<close>

definition SimpleGetter :: Getter where
  "SimpleGetter H xs = Inr (map (\<lambda>i. Value (Slot i) []) [0..<length xs])"

text \<open>
  Modelled from the spec: \<^verbatim>\<open>FieldGetter\<close> is declared outside \<^verbatim>\<open>sortutil.go\<close>. The
  named-field getter, "for each element (dereferencing one level of ownership indirection
  if the element is held by reference) looks up the field by name and returns its value",
  and fails when the field does not exist. For an element held by value the key is the
  field inside slot \<open>i\<close>. For an element held by reference the pointer is followed when the
  key is extracted, and the key is the field inside the struct it led to: the tests sort
  \<^verbatim>\<open>[]*Item\<close> by \<^verbatim>\<open>"Id"\<close> and require that it does not panic, and a \<^verbatim>\<open>reflect.Value\<close> that
  \<^verbatim>\<open>Int()\<close> can read is the integer field itself.
\<close>

fun Indirect :: "nat \<Rightarrow> val \<Rightarrow> place" where
  "Indirect i (VPtr a) = Cell a"
| "Indirect i v = Slot i"

definition FieldGetter :: "string \<Rightarrow> Getter" where
  "FieldGetter name H xs =
     collect (map (\<lambda>i. bnd (load H xs (Value (Indirect i (xs ! i)) [name]))
                          (\<lambda>k. Inr (Value (Indirect i (xs ! i)) [name])))
                  [0..<length xs])"

section \<open>The sorter\<close>

text \<open>
  \<^verbatim>\<open>type Sorter struct\<close>. \<open>V\<close> is the content of the slice that \<^verbatim>\<open>s.V\<close> designates (the
  caller's collection, mutated in place); \<open>T\<close> is the type of its elements. A \<^verbatim>\<open>nil\<close> getter
  is \<open>None\<close>; before \<^verbatim>\<open>Sort\<close> has run, \<open>vals\<close> is empty, \<open>valKind\<close> is \<open>Invalid\<close> (the zero
  kind) and \<open>valType\<close> is \<open>OtherType Invalid\<close>, standing for the \<^verbatim>\<open>nil\<close> type.
\<close>

record Sorter =
  T :: rtype
  V :: "val list"
  G :: "Getter option"
  Ordering :: Ordering
  vals :: "Value list"
  valKind :: Kind
  valType :: rtype

text \<open>How a call ends: it returns, or it panics and leaves the state it had reached.\<close>

datatype 's outcome = Returned 's | Panicked error 's

fun state_of :: "'s outcome \<Rightarrow> 's" where
  "state_of (Returned st) = st"
| "state_of (Panicked e st) = st"

text \<open>\<^verbatim>\<open>func (s *Sorter) Len() int\<close>.\<close>

definition Sorter_Len :: "Sorter \<Rightarrow> int" where
  "Sorter_Len s = int (length (vals s))"

text \<open>
  \<^verbatim>\<open>func (s *Sorter) Swap(i, j int)\<close>: \<^verbatim>\<open>tmp\<close> takes a copy of slot \<open>i\<close>, slot \<open>i\<close> is set
  to slot \<open>j\<close>, slot \<open>j\<close> is set to \<^verbatim>\<open>tmp\<close>. \<^verbatim>\<open>s.V.Index\<close> panics out of range, each time
  before anything is written. \<open>vals\<close> is not touched.
\<close>

definition Sorter_Swap :: "Sorter \<Rightarrow> int \<Rightarrow> int \<Rightarrow> error + Sorter" where
  "Sorter_Swap s i j =
     (if i < 0 \<or> int (length (V s)) \<le> i then Inl IndexOutOfRange
      else let tmp = V s ! nat i in
        if j < 0 \<or> int (length (V s)) \<le> j then Inl IndexOutOfRange
        else let s1 = s\<lparr>V := (V s)[nat i := V s ! nat j]\<rparr> in
          Inr (s1\<lparr>V := (V s1)[nat j := tmp]\<rparr>))"

text \<open>\<^verbatim>\<open>s.Sorter.vals[i]\<close>, and the key it reads now.\<close>

definition vals_at :: "Sorter \<Rightarrow> int \<Rightarrow> error + Value" where
  "vals_at s i =
     (if i < 0 \<or> int (length (vals s)) \<le> i then Inl IndexOutOfRange
      else Inr (vals s ! nat i))"

definition key :: "heap \<Rightarrow> Sorter \<Rightarrow> int \<Rightarrow> error + val" where
  "key H s i = bnd (vals_at s i) (load H (V s))"

text \<open>The fourteen \<^verbatim>\<open>Less\<close> methods.\<close>

definition stringAscending_Less :: "heap \<Rightarrow> Sorter \<Rightarrow> int \<Rightarrow> int \<Rightarrow> error + bool" where
  "stringAscending_Less H s i j =
     bnd (key H s i) (\<lambda>a. bnd (key H s j) (\<lambda>b.
       Inr (str_lt (String_of a) (String_of b))))"

definition stringDescending_Less :: "heap \<Rightarrow> Sorter \<Rightarrow> int \<Rightarrow> int \<Rightarrow> error + bool" where
  "stringDescending_Less H s i j =
     bnd (key H s i) (\<lambda>a. bnd (key H s j) (\<lambda>b.
       Inr (str_lt (String_of b) (String_of a))))"

definition stringInsensitiveAscending_Less ::
    "heap \<Rightarrow> Sorter \<Rightarrow> int \<Rightarrow> int \<Rightarrow> error + bool" where
  "stringInsensitiveAscending_Less H s i j =
     bnd (key H s i) (\<lambda>a. bnd (key H s j) (\<lambda>b.
       Inr (str_lt (ToLower (String_of a)) (ToLower (String_of b)))))"

definition stringInsensitiveDescending_Less ::
    "heap \<Rightarrow> Sorter \<Rightarrow> int \<Rightarrow> int \<Rightarrow> error + bool" where
  "stringInsensitiveDescending_Less H s i j =
     bnd (key H s i) (\<lambda>a. bnd (key H s j) (\<lambda>b.
       Inr (str_lt (ToLower (String_of b)) (ToLower (String_of a)))))"

definition boolAscending_Less :: "heap \<Rightarrow> Sorter \<Rightarrow> int \<Rightarrow> int \<Rightarrow> error + bool" where
  "boolAscending_Less H s i j =
     bnd (bnd (key H s i) Bool_of) (\<lambda>a.
       if \<not> a then bnd (bnd (key H s j) Bool_of) (\<lambda>b. Inr b) else Inr False)"

definition boolDescending_Less :: "heap \<Rightarrow> Sorter \<Rightarrow> int \<Rightarrow> int \<Rightarrow> error + bool" where
  "boolDescending_Less H s i j =
     bnd (bnd (key H s i) Bool_of) (\<lambda>a.
       if a then bnd (bnd (key H s j) Bool_of) (\<lambda>b. Inr (\<not> b)) else Inr False)"

definition intAscending_Less :: "heap \<Rightarrow> Sorter \<Rightarrow> int \<Rightarrow> int \<Rightarrow> error + bool" where
  "intAscending_Less H s i j =
     bnd (bnd (key H s i) Int_of) (\<lambda>a. bnd (bnd (key H s j) Int_of) (\<lambda>b. Inr (a < b)))"

definition intDescending_Less :: "heap \<Rightarrow> Sorter \<Rightarrow> int \<Rightarrow> int \<Rightarrow> error + bool" where
  "intDescending_Less H s i j =
     bnd (bnd (key H s i) Int_of) (\<lambda>a. bnd (bnd (key H s j) Int_of) (\<lambda>b. Inr (a > b)))"

definition uintAscending_Less :: "heap \<Rightarrow> Sorter \<Rightarrow> int \<Rightarrow> int \<Rightarrow> error + bool" where
  "uintAscending_Less H s i j =
     bnd (bnd (key H s i) Uint_of) (\<lambda>a. bnd (bnd (key H s j) Uint_of) (\<lambda>b. Inr (a < b)))"

definition uintDescending_Less :: "heap \<Rightarrow> Sorter \<Rightarrow> int \<Rightarrow> int \<Rightarrow> error + bool" where
  "uintDescending_Less H s i j =
     bnd (bnd (key H s i) Uint_of) (\<lambda>a. bnd (bnd (key H s j) Uint_of) (\<lambda>b. Inr (a > b)))"

definition floatAscending_Less :: "heap \<Rightarrow> Sorter \<Rightarrow> int \<Rightarrow> int \<Rightarrow> error + bool" where
  "floatAscending_Less H s i j =
     bnd (bnd (key H s i) Float_of) (\<lambda>a. bnd (bnd (key H s j) Float_of) (\<lambda>b.
       Inr (float_lt a b \<or> IsNaN a \<and> \<not> IsNaN b)))"

definition floatDescending_Less :: "heap \<Rightarrow> Sorter \<Rightarrow> int \<Rightarrow> int \<Rightarrow> error + bool" where
  "floatDescending_Less H s i j =
     bnd (bnd (key H s i) Float_of) (\<lambda>a. bnd (bnd (key H s j) Float_of) (\<lambda>b.
       Inr (float_gt a b \<or> \<not> IsNaN a \<and> IsNaN b)))"

definition timeAscending_Less :: "heap \<Rightarrow> Sorter \<Rightarrow> int \<Rightarrow> int \<Rightarrow> error + bool" where
  "timeAscending_Less H s i j =
     bnd (bnd (key H s i) Time_of) (\<lambda>a. bnd (bnd (key H s j) Time_of) (\<lambda>b. Inr (a < b)))"

definition timeDescending_Less :: "heap \<Rightarrow> Sorter \<Rightarrow> int \<Rightarrow> int \<Rightarrow> error + bool" where
  "timeDescending_Less H s i j =
     bnd (bnd (key H s i) Time_of) (\<lambda>a. bnd (bnd (key H s j) Time_of) (\<lambda>b. Inr (a > b)))"


section \<open>The sort.Interface capability and the routines that drive it\<close>

text \<open>
  \<^verbatim>\<open>sort.Interface\<close>: the three methods, taking the receiver's state. \<^verbatim>\<open>Less\<close> reads it,
  \<^verbatim>\<open>Swap\<close> returns it updated; both may panic.
\<close>

record 's Interface =
  Len :: "'s \<Rightarrow> int"
  Less :: "'s \<Rightarrow> int \<Rightarrow> int \<Rightarrow> error + bool"
  Swap :: "'s \<Rightarrow> int \<Rightarrow> int \<Rightarrow> error + 's"

text \<open>
  The wrapper types \<^verbatim>\<open>type stringAscending struct{ *Sorter }\<close> and so on: \<^verbatim>\<open>Len\<close> and
  \<^verbatim>\<open>Swap\<close> are the embedded sorter's, \<^verbatim>\<open>Less\<close> is the wrapper's own.
\<close>

definition stringAscending :: "heap \<Rightarrow> Sorter Interface" where
  "stringAscending H =
     \<lparr>Len = Sorter_Len, Less = stringAscending_Less H, Swap = Sorter_Swap\<rparr>"

definition stringDescending :: "heap \<Rightarrow> Sorter Interface" where
  "stringDescending H =
     \<lparr>Len = Sorter_Len, Less = stringDescending_Less H, Swap = Sorter_Swap\<rparr>"

definition stringInsensitiveAscending :: "heap \<Rightarrow> Sorter Interface" where
  "stringInsensitiveAscending H =
     \<lparr>Len = Sorter_Len, Less = stringInsensitiveAscending_Less H, Swap = Sorter_Swap\<rparr>"

definition stringInsensitiveDescending :: "heap \<Rightarrow> Sorter Interface" where
  "stringInsensitiveDescending H =
     \<lparr>Len = Sorter_Len, Less = stringInsensitiveDescending_Less H, Swap = Sorter_Swap\<rparr>"

definition boolAscending :: "heap \<Rightarrow> Sorter Interface" where
  "boolAscending H = \<lparr>Len = Sorter_Len, Less = boolAscending_Less H, Swap = Sorter_Swap\<rparr>"

definition boolDescending :: "heap \<Rightarrow> Sorter Interface" where
  "boolDescending H = \<lparr>Len = Sorter_Len, Less = boolDescending_Less H, Swap = Sorter_Swap\<rparr>"

definition intAscending :: "heap \<Rightarrow> Sorter Interface" where
  "intAscending H = \<lparr>Len = Sorter_Len, Less = intAscending_Less H, Swap = Sorter_Swap\<rparr>"

definition intDescending :: "heap \<Rightarrow> Sorter Interface" where
  "intDescending H = \<lparr>Len = Sorter_Len, Less = intDescending_Less H, Swap = Sorter_Swap\<rparr>"

definition uintAscending :: "heap \<Rightarrow> Sorter Interface" where
  "uintAscending H = \<lparr>Len = Sorter_Len, Less = uintAscending_Less H, Swap = Sorter_Swap\<rparr>"

definition uintDescending :: "heap \<Rightarrow> Sorter Interface" where
  "uintDescending H = \<lparr>Len = Sorter_Len, Less = uintDescending_Less H, Swap = Sorter_Swap\<rparr>"

definition floatAscending :: "heap \<Rightarrow> Sorter Interface" where
  "floatAscending H = \<lparr>Len = Sorter_Len, Less = floatAscending_Less H, Swap = Sorter_Swap\<rparr>"

definition floatDescending :: "heap \<Rightarrow> Sorter Interface" where
  "floatDescending H = \<lparr>Len = Sorter_Len, Less = floatDescending_Less H, Swap = Sorter_Swap\<rparr>"

definition timeAscending :: "heap \<Rightarrow> Sorter Interface" where
  "timeAscending H = \<lparr>Len = Sorter_Len, Less = timeAscending_Less H, Swap = Sorter_Swap\<rparr>"

definition timeDescending :: "heap \<Rightarrow> Sorter Interface" where
  "timeDescending H = \<lparr>Len = Sorter_Len, Less = timeDescending_Less H, Swap = Sorter_Swap\<rparr>"

text \<open>
  \<^verbatim>\<open>sort.Sort\<close> belongs to the Go standard library, not to this package, which uses it
  as the exchange sort driven by \<^verbatim>\<open>Len\<close>, \<^verbatim>\<open>Less\<close> and \<^verbatim>\<open>Swap\<close>. It stands here as the
  library's \<^verbatim>\<open>insertionSort(data, a, b)\<close>,
  \<^verbatim>\<open>for i := a + 1; i < b; i++ { for j := i; j > a && data.Less(j, j-1); j-- { data.Swap(j, j-1) } }\<close>,
  run on the whole range. This is what every version of \<^verbatim>\<open>sort.Sort\<close> runs on fewer than
  7 elements, and the current one on up to 12; longer ranges are first cut down by a
  quicksort that is not modelled.
\<close>

function insertionSort_inner :: "'s Interface \<Rightarrow> int \<Rightarrow> int \<Rightarrow> 's \<Rightarrow> 's outcome" where
  "insertionSort_inner data a j st =
     (if j > a then
        (case Less data st j (j - 1) of
           Inl e \<Rightarrow> Panicked e st
         | Inr lt \<Rightarrow>
             if lt then
               (case Swap data st j (j - 1) of
                  Inl e \<Rightarrow> Panicked e st
                | Inr st' \<Rightarrow> insertionSort_inner data a (j - 1) st')
             else Returned st)
      else Returned st)"
  by pat_completeness auto
termination
  by (relation "measure (\<lambda>(data, a, j, st). nat (j - a))") auto

function insertionSort_outer ::
    "'s Interface \<Rightarrow> int \<Rightarrow> int \<Rightarrow> int \<Rightarrow> 's \<Rightarrow> 's outcome" where
  "insertionSort_outer data a i b st =
     (if i < b then
        (case insertionSort_inner data a i st of
           Panicked e st' \<Rightarrow> Panicked e st'
         | Returned st' \<Rightarrow> insertionSort_outer data a (i + 1) b st')
      else Returned st)"
  by pat_completeness auto
termination
  by (relation "measure (\<lambda>(data, a, i, b, st). nat (b - i))") auto

definition insertionSort :: "'s Interface \<Rightarrow> int \<Rightarrow> int \<Rightarrow> 's \<Rightarrow> 's outcome" where
  "insertionSort data a b st = insertionSort_outer data a (a + 1) b st"

definition sort_Sort :: "'s Interface \<Rightarrow> 's \<Rightarrow> 's outcome" where
  "sort_Sort data st = insertionSort data 0 (Len data st) st"

text \<open>
  \<^verbatim>\<open>func Reverse(s sort.Interface)\<close>:
  \<^verbatim>\<open>for i, j := 0, s.Len()-1; i < j; i, j = i+1, j-1 { s.Swap(i, j) }\<close>.
\<close>

function Reverse_loop :: "'s Interface \<Rightarrow> int \<Rightarrow> int \<Rightarrow> 's \<Rightarrow> 's outcome" where
  "Reverse_loop s i j st =
     (if i < j then
        (case Swap s st i j of
           Inl e \<Rightarrow> Panicked e st
         | Inr st' \<Rightarrow> Reverse_loop s (i + 1) (j - 1) st')
      else Returned st)"
  by pat_completeness auto
termination
  by (relation "measure (\<lambda>(s, i, j, st). nat (j - i))") auto

definition Reverse :: "'s Interface \<Rightarrow> 's \<Rightarrow> 's outcome" where
  "Reverse s st = Reverse_loop s 0 (Len s st - 1) st"

text \<open>\<^verbatim>\<open>func SortReverse(s sort.Interface)\<close>: \<^verbatim>\<open>sort.Sort(s)\<close>, then \<^verbatim>\<open>Reverse(s)\<close>.\<close>

definition SortReverse :: "'s Interface \<Rightarrow> 's \<Rightarrow> 's outcome" where
  "SortReverse s st =
     (case sort_Sort s st of
        Panicked e st' \<Rightarrow> Panicked e st'
      | Returned st' \<Rightarrow> Reverse s st')"

text \<open>
  The sortable slice types of the package's tests, \<^verbatim>\<open>type SortableItems []Item\<close> and
  \<^verbatim>\<open>type SortablePointers []*Item\<close>: \<^verbatim>\<open>Len\<close> is \<^verbatim>\<open>len(s)\<close>, \<^verbatim>\<open>Swap\<close> is
  \<^verbatim>\<open>s[i], s[j] = s[j], s[i]\<close> (both right-hand sides are read, and checked, before anything
  is written) and \<^verbatim>\<open>Less\<close> is \<^verbatim>\<open>s[i].Id > s[j].Id\<close>, which for the pointers reads the
  structs in the heap.
\<close>

definition slice_index :: "val list \<Rightarrow> int \<Rightarrow> error + val" where
  "slice_index xs i =
     (if i < 0 \<or> int (length xs) \<le> i then Inl IndexOutOfRange else Inr (xs ! nat i))"

definition slice_Len :: "val list \<Rightarrow> int" where
  "slice_Len xs = int (length xs)"

definition slice_Swap :: "val list \<Rightarrow> int \<Rightarrow> int \<Rightarrow> error + val list" where
  "slice_Swap xs i j =
     bnd (slice_index xs j) (\<lambda>b. bnd (slice_index xs i) (\<lambda>a.
       Inr (xs[nat i := b, nat j := a])))"

definition Id_of :: "val \<Rightarrow> error + int" where
  "Id_of v = bnd (FieldByName v ''Id'') Int_of"

definition SortableItems_Less :: "val list \<Rightarrow> int \<Rightarrow> int \<Rightarrow> error + bool" where
  "SortableItems_Less xs i j =
     bnd (bnd (slice_index xs i) Id_of) (\<lambda>a.
       bnd (bnd (slice_index xs j) Id_of) (\<lambda>b. Inr (a > b)))"

definition SortableItems :: "val list Interface" where
  "SortableItems = \<lparr>Len = slice_Len, Less = SortableItems_Less, Swap = slice_Swap\<rparr>"

fun deref :: "heap \<Rightarrow> val \<Rightarrow> error + val" where
  "deref H (VPtr a) = (case H a of None \<Rightarrow> Inl NilDereference | Some v \<Rightarrow> Inr v)"
| "deref H v = Inl ValueError"

definition SortablePointers_Less :: "heap \<Rightarrow> val list \<Rightarrow> int \<Rightarrow> int \<Rightarrow> error + bool" where
  "SortablePointers_Less H xs i j =
     bnd (bnd (bnd (slice_index xs i) (deref H)) Id_of) (\<lambda>a.
       bnd (bnd (bnd (slice_index xs j) (deref H)) Id_of) (\<lambda>b. Inr (a > b)))"

definition SortablePointers :: "heap \<Rightarrow> val list Interface" where
  "SortablePointers H =
     \<lparr>Len = slice_Len, Less = SortablePointers_Less H, Swap = slice_Swap\<rparr>"

section \<open>Sorter.Sort\<close>

text \<open>The inner switches on \<^verbatim>\<open>s.Ordering\<close>, one for each group of kinds.\<close>

definition Sort_time :: "heap \<Rightarrow> Sorter \<Rightarrow> Sorter outcome" where
  "Sort_time H s =
     (if Ordering s = Ascending then sort_Sort (timeAscending H) s
      else if Ordering s = Descending then sort_Sort (timeDescending H) s
      else Panicked (InvalidOrdering (Ordering s) ''time.Time'') s)"

definition Sort_default :: "heap \<Rightarrow> Sorter \<Rightarrow> Sorter outcome" where
  "Sort_default H s =
     (if valType s = t_time then Sort_time H s
      else Panicked (CannotSortByType (valType s)) s)"

definition Sort_strings :: "heap \<Rightarrow> Sorter \<Rightarrow> Sorter outcome" where
  "Sort_strings H s =
     (if Ordering s = Ascending then sort_Sort (stringAscending H) s
      else if Ordering s = Descending then sort_Sort (stringDescending H) s
      else if Ordering s = CaseInsensitiveAscending
        then sort_Sort (stringInsensitiveAscending H) s
      else if Ordering s = CaseInsensitiveDescending
        then sort_Sort (stringInsensitiveDescending H) s
      else Panicked (InvalidOrdering (Ordering s) ''strings'') s)"

definition Sort_booleans :: "heap \<Rightarrow> Sorter \<Rightarrow> Sorter outcome" where
  "Sort_booleans H s =
     (if Ordering s = Ascending then sort_Sort (boolAscending H) s
      else if Ordering s = Descending then sort_Sort (boolDescending H) s
      else Panicked (InvalidOrdering (Ordering s) ''booleans'') s)"

definition Sort_ints :: "heap \<Rightarrow> Sorter \<Rightarrow> Sorter outcome" where
  "Sort_ints H s =
     (if Ordering s = Ascending then sort_Sort (intAscending H) s
      else if Ordering s = Descending then sort_Sort (intDescending H) s
      else Panicked (InvalidOrdering (Ordering s) ''ints'') s)"

definition Sort_uints :: "heap \<Rightarrow> Sorter \<Rightarrow> Sorter outcome" where
  "Sort_uints H s =
     (if Ordering s = Ascending then sort_Sort (uintAscending H) s
      else if Ordering s = Descending then sort_Sort (uintDescending H) s
      else Panicked (InvalidOrdering (Ordering s) ''uints'') s)"

definition Sort_floats :: "heap \<Rightarrow> Sorter \<Rightarrow> Sorter outcome" where
  "Sort_floats H s =
     (if Ordering s = Ascending then sort_Sort (floatAscending H) s
      else if Ordering s = Descending then sort_Sort (floatDescending H) s
      else Panicked (InvalidOrdering (Ordering s) ''floats'') s)"

text \<open>The outer switch on \<^verbatim>\<open>s.valKind\<close>.\<close>

definition Sort_switch :: "heap \<Rightarrow> Sorter \<Rightarrow> Sorter outcome" where
  "Sort_switch H s =
     (case valKind s of
        String \<Rightarrow> Sort_strings H s
      | Bool \<Rightarrow> Sort_booleans H s
      | IntK \<Rightarrow> Sort_ints H s
      | Int8 \<Rightarrow> Sort_ints H s
      | Int16 \<Rightarrow> Sort_ints H s
      | Int32 \<Rightarrow> Sort_ints H s
      | Int64 \<Rightarrow> Sort_ints H s
      | Uint \<Rightarrow> Sort_uints H s
      | Uint8 \<Rightarrow> Sort_uints H s
      | Uint16 \<Rightarrow> Sort_uints H s
      | Uint32 \<Rightarrow> Sort_uints H s
      | Uint64 \<Rightarrow> Sort_uints H s
      | Float32 \<Rightarrow> Sort_floats H s
      | Float64 \<Rightarrow> Sort_floats H s
      | _ \<Rightarrow> Sort_default H s)"

text \<open>
  \<^verbatim>\<open>func (s *Sorter) Sort()\<close>: a \<^verbatim>\<open>nil\<close> getter becomes \<^verbatim>\<open>SimpleGetter()\<close>, the getter
  extracts the keys, \<^verbatim>\<open>s.vals[0]\<close> gives the type and the kind, and the switch picks the
  comparison and runs the sort.
\<close>

definition Sorter_Sort :: "heap \<Rightarrow> Sorter \<Rightarrow> Sorter outcome" where
  "Sorter_Sort H s =
     (let g = (case G s of None \<Rightarrow> SimpleGetter | Some g' \<Rightarrow> g');
          s1 = s\<lparr>G := Some g\<rparr>
      in case g H (V s1) of
           Inl e \<Rightarrow> Panicked e s1
         | Inr ks \<Rightarrow>
             (let s2 = s1\<lparr>vals := ks\<rparr>
              in case bnd (vals_at s2 0) (load H (V s2)) of
                   Inl e \<Rightarrow> Panicked e s2
                 | Inr one \<Rightarrow>
                     Sort_switch H (s2\<lparr>valType := Type_of one, valKind := Kind_of one\<rparr>)))"

text \<open>
  \<^verbatim>\<open>func New(x interface{}, g Getter, o Ordering) *Sorter\<close>, for a slice \<open>x\<close>:
  \<^verbatim>\<open>v.Index(0)\<close> panics when the slice is empty.
\<close>

definition New :: "val list \<Rightarrow> Getter option \<Rightarrow> Ordering \<Rightarrow> error + Sorter" where
  "New x g ord =
     (if length x = 0 then Inl IndexOutOfRange
      else Inr \<lparr>T = Type_of (x ! 0), V = x, G = g, Ordering = ord, vals = [],
                valKind = Invalid, valType = OtherType Invalid\<rparr>)"

text \<open>
  \<^verbatim>\<open>func Sort(x interface{}, g Getter, o Ordering)\<close>: \<^verbatim>\<open>New(x, g, o).Sort()\<close>. The
  result is the collection as the call leaves it.
\<close>

definition Sort :: "heap \<Rightarrow> val list \<Rightarrow> Getter option \<Rightarrow> Ordering \<Rightarrow> val list outcome" where
  "Sort H x g ord =
     (case New x g ord of
        Inl e \<Rightarrow> Panicked e x
      | Inr s \<Rightarrow>
          (case Sorter_Sort H s of
             Returned s' \<Rightarrow> Returned (V s')
           | Panicked e s' \<Rightarrow> Panicked e (V s')))"


text \<open>
  The entry points that bind a getter and an ordering: \<^verbatim>\<open>Asc\<close>, \<^verbatim>\<open>Desc\<close>, \<^verbatim>\<open>CiAsc\<close>,
  \<^verbatim>\<open>CiDesc\<close> pass a \<^verbatim>\<open>nil\<close> getter, the \<^verbatim>\<open>ByField\<close> ones pass \<^verbatim>\<open>FieldGetter(name)\<close>.
\<close>

definition Asc :: "heap \<Rightarrow> val list \<Rightarrow> val list outcome" where
  "Asc H slice = Sort H slice None Ascending"

definition Desc :: "heap \<Rightarrow> val list \<Rightarrow> val list outcome" where
  "Desc H slice = Sort H slice None Descending"

definition CiAsc :: "heap \<Rightarrow> val list \<Rightarrow> val list outcome" where
  "CiAsc H slice = Sort H slice None CaseInsensitiveAscending"

definition CiDesc :: "heap \<Rightarrow> val list \<Rightarrow> val list outcome" where
  "CiDesc H slice = Sort H slice None CaseInsensitiveDescending"

definition AscByField :: "heap \<Rightarrow> val list \<Rightarrow> string \<Rightarrow> val list outcome" where
  "AscByField H slice name = Sort H slice (Some (FieldGetter name)) Ascending"

definition DescByField :: "heap \<Rightarrow> val list \<Rightarrow> string \<Rightarrow> val list outcome" where
  "DescByField H slice name = Sort H slice (Some (FieldGetter name)) Descending"

definition CiAscByField :: "heap \<Rightarrow> val list \<Rightarrow> string \<Rightarrow> val list outcome" where
  "CiAscByField H slice name = Sort H slice (Some (FieldGetter name)) CaseInsensitiveAscending"

definition CiDescByField :: "heap \<Rightarrow> val list \<Rightarrow> string \<Rightarrow> val list outcome" where
  "CiDescByField H slice name = Sort H slice (Some (FieldGetter name)) CaseInsensitiveDescending"

section \<open>Notions used to state the properties\<close>

text \<open>
  An interface with a counter beside its state: every \<^verbatim>\<open>Swap\<close> that goes through adds
  one. \<^verbatim>\<open>Len\<close> and \<^verbatim>\<open>Less\<close> are those of the interface.
\<close>

definition counting :: "'s Interface \<Rightarrow> ('s \<times> nat) Interface" where
  "counting d =
     \<lparr>Len = (\<lambda>(st, n). Len d st),
      Less = (\<lambda>(st, n). Less d st),
      Swap = (\<lambda>(st, n) i j.
                case Swap d st i j of Inl e \<Rightarrow> Inl e | Inr st' \<Rightarrow> Inr (st', Suc n))\<rparr>"

text \<open>
  An interface exposes a sequence \<open>content st\<close> when, on the states \<open>ok\<close> it is used on,
  \<^verbatim>\<open>Len\<close> is the length of the sequence and \<^verbatim>\<open>Swap(i, j)\<close> exchanges its positions \<open>i\<close>
  and \<open>j\<close>.
\<close>

definition exchanges :: "'s Interface \<Rightarrow> ('s \<Rightarrow> bool) \<Rightarrow> ('s \<Rightarrow> 'a list) \<Rightarrow> bool" where
  "exchanges d ok content =
     (\<forall>st. ok st \<longrightarrow>
        Len d st = int (length (content st)) \<and>
        (\<forall>i j. i < length (content st) \<longrightarrow> j < length (content st) \<longrightarrow>
           (\<exists>st'. Swap d st (int i) (int j) = Inr st' \<and> ok st' \<and>
                  content st' = (content st)[i := content st ! j, j := content st ! i])))"

text \<open>
  Its \<^verbatim>\<open>Less(i, j)\<close> compares by \<open>lt\<close> the keys \<open>keyf\<close> of the elements now at \<open>i\<close> and \<open>j\<close>.
\<close>

definition compares ::
    "'s Interface \<Rightarrow> ('s \<Rightarrow> bool) \<Rightarrow> ('s \<Rightarrow> 'a list) \<Rightarrow> ('a \<Rightarrow> 'k) \<Rightarrow> ('k \<Rightarrow> 'k \<Rightarrow> bool) \<Rightarrow> bool"
  where
  "compares d ok content keyf lt =
     (\<forall>st. ok st \<longrightarrow>
        (\<forall>i j. i < length (content st) \<longrightarrow> j < length (content st) \<longrightarrow>
           Less d st (int i) (int j) = Inr (lt (keyf (content st ! i)) (keyf (content st ! j)))))"

text \<open>
  Data in the shape of the package's tests: items with an \<^verbatim>\<open>Id\<close> field, held by value
  in the slice, or held by reference (\<^verbatim>\<open>[]*Item\<close>) with the structs in the heap.
\<close>

definition item :: "int \<Rightarrow> val" where
  "item n = VStruct [(''Id'', VInt B64 n)]"

definition three_cells :: heap where
  "three_cells = [0 \<mapsto> item 2, 1 \<mapsto> item 3, 2 \<mapsto> item 1]"

definition three_pointers :: "val list" where
  "three_pointers = [VPtr 0, VPtr 1, VPtr 2]"

definition three_items :: "val list" where
  "three_items = [item 2, item 3, item 1]"


text \<open>
  The state \<^verbatim>\<open>Sorter.Sort\<close> has built from \<open>three_pointers\<close> when it reaches the switch: the
  keys extracted by \<open>FieldGetter ''Id''\<close>, each a handle on the \<^verbatim>\<open>Id\<close> field of the struct
  its pointer led to.
\<close>

definition pointers_sorter :: Sorter where
  "pointers_sorter =
     \<lparr>T = OtherType Pointer, V = three_pointers, G = Some (FieldGetter ''Id''),
      Ordering = Ascending,
      vals = [Value (Cell 0) [''Id''], Value (Cell 1) [''Id''], Value (Cell 2) [''Id'']],
      valKind = Int64, valType = OtherType Int64\<rparr>"

text \<open>A sorter on the float slice \<^verbatim>\<open>[]float64{NaN, 0}\<close>, keys extracted.\<close>

definition nan_and_zero :: Sorter where
  "nan_and_zero =
     \<lparr>T = OtherType Float64, V = [VFloat F64 NaN, VFloat F64 (Finite 0)], G = Some SimpleGetter,
      Ordering = Ascending, vals = [Value (Slot 0) [], Value (Slot 1) []],
      valKind = Float64, valType = OtherType Float64\<rparr>"

text \<open>
  The keys of a collection as a getter extracts them: the key handles, each read at
  once.
\<close>

definition keys_of :: "heap \<Rightarrow> Getter \<Rightarrow> val list \<Rightarrow> error + val list" where
  "keys_of H g xs = bnd (g H xs) (\<lambda>ks. collect (map (load H xs) ks))"

text \<open>
  The element of the tests' \<^verbatim>\<open>testStructs()\<close>, as far as \<^verbatim>\<open>TestSortInvalidType\<close> uses
  it: a struct whose field \<^verbatim>\<open>Invalid\<close> is itself a plain struct.
\<close>

definition invalid_struct :: val where
  "invalid_struct =
     VStruct [(''Invalid'', VStruct [(''Foo'', VString ''foo''), (''Bar'', VInt B0 123)])]"

text \<open>
  Keys held in the slots: key \<open>i\<close> is the handle on slot \<open>i\<close>, followed by the same fields
  for every \<open>i\<close>. This is what \<open>SimpleGetter\<close> returns, and \<open>FieldGetter\<close> on a slice whose
  elements are held by value.
\<close>

definition keys_in_slots :: "string list \<Rightarrow> Sorter \<Rightarrow> bool" where
  "keys_in_slots names s = (vals s = map (\<lambda>i. Value (Slot i) names) [0..<length (V s)])"

text \<open>
  Every element has a key that the accessor \<open>acc\<close> reads (all keys are of the one type the
  slice's static type gives them), and the key of an element.
\<close>

definition readable :: "(val \<Rightarrow> error + 'k) \<Rightarrow> string list \<Rightarrow> val list \<Rightarrow> bool" where
  "readable acc names xs = (\<forall>e \<in> set xs. \<exists>k. bnd (walk names e) acc = Inr k)"

definition key_by :: "(val \<Rightarrow> error + 'k) \<Rightarrow> string list \<Rightarrow> val \<Rightarrow> 'k" where
  "key_by acc names e = projr (bnd (walk names e) acc)"

definition by_value :: "(val \<Rightarrow> error + 'k) \<Rightarrow> string list \<Rightarrow> Sorter \<Rightarrow> bool" where
  "by_value acc names s = (keys_in_slots names s \<and> readable acc names (V s))"

text \<open>
  The ordering predicate the switch of \<^verbatim>\<open>Sorter.Sort\<close> selects: the \<^verbatim>\<open>Less\<close> of the wrapper
  it hands to \<^verbatim>\<open>sort.Sort\<close> for the kind, the type and the ordering the sorter holds, and
  \<open>None\<close> where the switch panics.
\<close>

definition Less_by_ordering ::
    "Ordering \<Rightarrow> (Sorter \<Rightarrow> int \<Rightarrow> int \<Rightarrow> error + bool) \<Rightarrow> (Sorter \<Rightarrow> int \<Rightarrow> int \<Rightarrow> error + bool)
      \<Rightarrow> (Sorter \<Rightarrow> int \<Rightarrow> int \<Rightarrow> error + bool) option" where
  "Less_by_ordering ord asc desc =
     (if ord = Ascending then Some asc else if ord = Descending then Some desc else None)"

definition Less_for ::
    "heap \<Rightarrow> Kind \<Rightarrow> rtype \<Rightarrow> Ordering \<Rightarrow> (Sorter \<Rightarrow> int \<Rightarrow> int \<Rightarrow> error + bool) option" where
  "Less_for H kind ty ord =
     (case kind of
        String \<Rightarrow>
          (if ord = CaseInsensitiveAscending then Some (stringInsensitiveAscending_Less H)
           else if ord = CaseInsensitiveDescending
             then Some (stringInsensitiveDescending_Less H)
           else Less_by_ordering ord (stringAscending_Less H) (stringDescending_Less H))
      | Bool \<Rightarrow> Less_by_ordering ord (boolAscending_Less H) (boolDescending_Less H)
      | IntK \<Rightarrow> Less_by_ordering ord (intAscending_Less H) (intDescending_Less H)
      | Int8 \<Rightarrow> Less_by_ordering ord (intAscending_Less H) (intDescending_Less H)
      | Int16 \<Rightarrow> Less_by_ordering ord (intAscending_Less H) (intDescending_Less H)
      | Int32 \<Rightarrow> Less_by_ordering ord (intAscending_Less H) (intDescending_Less H)
      | Int64 \<Rightarrow> Less_by_ordering ord (intAscending_Less H) (intDescending_Less H)
      | Uint \<Rightarrow> Less_by_ordering ord (uintAscending_Less H) (uintDescending_Less H)
      | Uint8 \<Rightarrow> Less_by_ordering ord (uintAscending_Less H) (uintDescending_Less H)
      | Uint16 \<Rightarrow> Less_by_ordering ord (uintAscending_Less H) (uintDescending_Less H)
      | Uint32 \<Rightarrow> Less_by_ordering ord (uintAscending_Less H) (uintDescending_Less H)
      | Uint64 \<Rightarrow> Less_by_ordering ord (uintAscending_Less H) (uintDescending_Less H)
      | Float32 \<Rightarrow> Less_by_ordering ord (floatAscending_Less H) (floatDescending_Less H)
      | Float64 \<Rightarrow> Less_by_ordering ord (floatAscending_Less H) (floatDescending_Less H)
      | _ \<Rightarrow>
          (if ty = t_time
           then Less_by_ordering ord (timeAscending_Less H) (timeDescending_Less H)
           else None))"

definition Sorter_Less :: "heap \<Rightarrow> Sorter \<Rightarrow> (Sorter \<Rightarrow> int \<Rightarrow> int \<Rightarrow> error + bool) option" where
  "Sorter_Less H s = Less_for H (valKind s) (valType s) (Ordering s)"

text \<open>
  The state \<^verbatim>\<open>Sorter.Sort\<close> has built from \<open>three_items\<close> when it reaches the switch: each
  key is a handle on the \<^verbatim>\<open>Id\<close> field inside its slot.
\<close>

definition items_sorter :: Sorter where
  "items_sorter =
     \<lparr>T = OtherType Struct, V = three_items, G = Some (FieldGetter ''Id''),
      Ordering = Ascending,
      vals = [Value (Slot 0) [''Id''], Value (Slot 1) [''Id''], Value (Slot 2) [''Id'']],
      valKind = Int64, valType = OtherType Int64\<rparr>"

section \<open>Properties\<close>

declare insertionSort_inner.simps [simp del]
declare insertionSort_outer.simps [simp del]
declare Reverse_loop.simps [simp del]

subsection \<open>What the swaps preserve\<close>

lemmas Ordering_defs =
  Ascending_def Descending_def CaseInsensitiveAscending_def CaseInsensitiveDescending_def

lemmas wrapper_defs =
  stringAscending_def stringDescending_def stringInsensitiveAscending_def
  stringInsensitiveDescending_def boolAscending_def boolDescending_def intAscending_def
  intDescending_def uintAscending_def uintDescending_def floatAscending_def
  floatDescending_def timeAscending_def timeDescending_def

lemmas branch_defs =
  Sort_default_def Sort_time_def Sort_strings_def Sort_booleans_def Sort_ints_def
  Sort_uints_def Sort_floats_def

lemma insertionSort_inner_keeps:
  assumes "\<And>st i j st'. Swap d st i j = Inr st' \<Longrightarrow> f st' = f st"
  shows "f (state_of (insertionSort_inner d a j st)) = f st"
  using assms
proof (induction d a j st rule: insertionSort_inner.induct)
  case (1 d a j st)
  show ?case
  proof (cases "j > a")
    case False
    then show ?thesis by (simp add: insertionSort_inner.simps [of d a j st])
  next
    case True
    show ?thesis
    proof (cases "Less d st j (j - 1)")
      case (Inl e)
      with True show ?thesis by (simp add: insertionSort_inner.simps [of d a j st])
    next
      case (Inr lt)
      show ?thesis
      proof (cases lt)
        case False
        with True Inr show ?thesis by (simp add: insertionSort_inner.simps [of d a j st])
      next
        case lt: True
        show ?thesis
        proof (cases "Swap d st j (j - 1)")
          case (Inl e)
          with True Inr lt show ?thesis
            by (simp add: insertionSort_inner.simps [of d a j st])
        next
          case sw: (Inr st')
          have "f (state_of (insertionSort_inner d a (j - 1) st')) = f st'"
            using "1.IH" [OF True Inr _ sw] lt "1.prems" by simp
          moreover have "f st' = f st" using "1.prems" sw by blast
          ultimately show ?thesis
            using True Inr lt sw by (simp add: insertionSort_inner.simps [of d a j st])
        qed
      qed
    qed
  qed
qed

lemma insertionSort_outer_keeps:
  assumes "\<And>st i j st'. Swap d st i j = Inr st' \<Longrightarrow> f st' = f st"
  shows "f (state_of (insertionSort_outer d a i b st)) = f st"
  using assms
proof (induction d a i b st rule: insertionSort_outer.induct)
  case (1 d a i b st)
  show ?case
  proof (cases "i < b")
    case False
    then show ?thesis by (simp add: insertionSort_outer.simps [of d a i b st])
  next
    case True
    have inner: "f (state_of (insertionSort_inner d a i st)) = f st"
      using "1.prems" by (rule insertionSort_inner_keeps [of d f])
    show ?thesis
    proof (cases "insertionSort_inner d a i st")
      case (Panicked e st')
      with True inner show ?thesis
        by (simp add: insertionSort_outer.simps [of d a i b st])
    next
      case (Returned st')
      have "f (state_of (insertionSort_outer d a (i + 1) b st')) = f st'"
        using "1.IH" [OF True Returned] "1.prems" by simp
      with True inner Returned show ?thesis
        by (simp add: insertionSort_outer.simps [of d a i b st])
    qed
  qed
qed

lemma sort_Sort_keeps:
  assumes "\<And>st i j st'. Swap d st i j = Inr st' \<Longrightarrow> f st' = f st"
  shows "f (state_of (sort_Sort d st)) = f st"
  unfolding sort_Sort_def insertionSort_def
  using assms by (rule insertionSort_outer_keeps [of d f])

lemma Reverse_loop_keeps:
  assumes "\<And>st i j st'. Swap d st i j = Inr st' \<Longrightarrow> f st' = f st"
  shows "f (state_of (Reverse_loop d i j st)) = f st"
  using assms
proof (induction d i j st rule: Reverse_loop.induct)
  case (1 d i j st)
  show ?case
  proof (cases "i < j")
    case False
    then show ?thesis by (simp add: Reverse_loop.simps [of d i j st])
  next
    case True
    show ?thesis
    proof (cases "Swap d st i j")
      case (Inl e)
      with True show ?thesis by (simp add: Reverse_loop.simps [of d i j st])
    next
      case (Inr st')
      have "f (state_of (Reverse_loop d (i + 1) (j - 1) st')) = f st'"
        using "1.IH" [OF True Inr] "1.prems" by simp
      moreover have "f st' = f st" using "1.prems" Inr by blast
      ultimately show ?thesis
        using True Inr by (simp add: Reverse_loop.simps [of d i j st])
    qed
  qed
qed

lemma Reverse_keeps:
  assumes "\<And>st i j st'. Swap d st i j = Inr st' \<Longrightarrow> f st' = f st"
  shows "f (state_of (Reverse d st)) = f st"
  unfolding Reverse_def using assms by (rule Reverse_loop_keeps [of d f])

lemma SortReverse_keeps:
  assumes "\<And>st i j st'. Swap d st i j = Inr st' \<Longrightarrow> f st' = f st"
  shows "f (state_of (SortReverse d st)) = f st"
proof (cases "sort_Sort d st")
  case (Returned st')
  have "f st' = f st" using sort_Sort_keeps [of d f st, OF assms] Returned by simp
  moreover have "f (state_of (Reverse d st')) = f st'"
    using assms by (rule Reverse_keeps [of d f])
  ultimately show ?thesis using Returned by (simp add: SortReverse_def)
next
  case (Panicked e st')
  then show ?thesis using sort_Sort_keeps [of d f st, OF assms] by (simp add: SortReverse_def)
qed

lemma Sorter_Swap_mset: "Sorter_Swap s i j = Inr s' \<Longrightarrow> mset (V s') = mset (V s)"
  by (auto simp: Sorter_Swap_def Let_def mset_swap split: if_splits)

lemma Sorter_Swap_frame:
  "Sorter_Swap s i j = Inr s' \<Longrightarrow>
     vals s' = vals s \<and> G s' = G s \<and> Ordering s' = Ordering s \<and> valKind s' = valKind s
     \<and> valType s' = valType s \<and> T s' = T s \<and> length (V s') = length (V s)"
  by (auto simp: Sorter_Swap_def Let_def split: if_splits)


lemma sort_Sort_Sorter_mset:
  "Swap d = Sorter_Swap \<Longrightarrow> mset (V (state_of (sort_Sort d s))) = mset (V s)"
  using sort_Sort_keeps [of d "\<lambda>s. mset (V s)" s] Sorter_Swap_mset by simp

lemma Sort_switch_mset: "mset (V (state_of (Sort_switch H s))) = mset (V s)"
  by (cases "valKind s")
     (simp_all add: Sort_switch_def branch_defs sort_Sort_Sorter_mset wrapper_defs)

lemma Sorter_Sort_mset: "mset (V (state_of (Sorter_Sort H s))) = mset (V s)"
proof -
  have "\<And>s'. mset (V (state_of (Sort_switch H s'))) = mset (V s')"
    by (rule Sort_switch_mset)
  then show ?thesis
    by (simp add: Sorter_Sort_def Let_def split: sum.splits)
qed

lemma Sort_mset: "mset (state_of (Sort H x g ord)) = mset x"
proof (cases "New x g ord")
  case (Inl e)
  then show ?thesis by (simp add: Sort_def)
next
  case (Inr s)
  then have "V s = x" by (auto simp: New_def split: if_splits)
  then show ?thesis
    using Inr Sorter_Sort_mset [of H s] by (cases "Sorter_Sort H s") (simp_all add: Sort_def)
qed


subsection \<open>Reverse\<close>

lemma counting_simps [simp]:
  "Len (counting d) (st, n) = Len d st"
  "Less (counting d) (st, n) = Less d st"
  "Swap (counting d) (st, n) i j =
     (case Swap d st i j of Inl e \<Rightarrow> Inl e | Inr st' \<Rightarrow> Inr (st', Suc n))"
  by (simp_all add: counting_def)

lemma exchangesD:
  assumes "exchanges d ok content" "ok st" "i < length (content st)" "j < length (content st)"
  obtains st' where "Swap d st (int i) (int j) = Inr st'" "ok st'"
    "content st' = (content st)[i := content st ! j, j := content st ! i]"
  using assms unfolding exchanges_def by blast

lemma exchanges_Len: "exchanges d ok content \<Longrightarrow> ok st \<Longrightarrow> Len d st = int (length (content st))"
  unfolding exchanges_def by blast

lemma Reverse_loop_counting:
  assumes ex: "exchanges d ok content"
  shows "ok st \<Longrightarrow> i \<le> Suc j \<Longrightarrow> j < length (content st) \<Longrightarrow>
    \<exists>st'. Reverse_loop (counting d) (int i) (int j) (st, c)
            = Returned (st', c + (Suc j - i) div 2)
        \<and> ok st' \<and> length (content st') = length (content st)
        \<and> (\<forall>k < length (content st). content st' ! k =
              (if i \<le> k \<and> k \<le> j then content st ! (i + j - k) else content st ! k))"
proof (induction "Suc j - i" arbitrary: i j st c rule: less_induct)
  case less
  show ?case
  proof (cases "i < j")
    case False
    then have "Suc j - i \<le> 1" using less.prems by simp
    moreover have "\<forall>k. i \<le> k \<and> k \<le> j \<longrightarrow> i + j - k = k" using False by auto
    ultimately show ?thesis
      using False less.prems by (auto simp: Reverse_loop.simps [of _ "int i" "int j"])
  next
    case True
    then obtain j' where j': "j = Suc j'" by (cases j) auto
    have il: "i < length (content st)" using True less.prems by simp
    obtain st1 where sw: "Swap d st (int i) (int j) = Inr st1" and ok1: "ok st1"
      and c1: "content st1 = (content st)[i := content st ! j, j := content st ! i]"
      using exchangesD [OF ex less.prems(1) il less.prems(3)] by blast
    have len1: "length (content st1) = length (content st)" using c1 by simp
    have "Suc j' - Suc i < Suc j - i" using True j' by simp
    from less.hyps [OF this ok1, of "Suc c"] True j' less.prems len1
    obtain st' where run: "Reverse_loop (counting d) (int (Suc i)) (int j') (st1, Suc c)
            = Returned (st', Suc c + (Suc j' - Suc i) div 2)"
      and ok': "ok st'" and len': "length (content st') = length (content st1)"
      and nth': "\<forall>k < length (content st1). content st' ! k =
              (if Suc i \<le> k \<and> k \<le> j' then content st1 ! (Suc i + j' - k) else content st1 ! k)"
      by auto
    have idx: "int i + 1 = int (Suc i)" "int j - 1 = int j'" using j' by simp_all
    have cnt: "Suc c + (Suc j' - Suc i) div 2 = c + (Suc j - i) div 2"
    proof -
      have "Suc j - i = (Suc j' - Suc i) + 2" using True j' by simp
      then show ?thesis by simp
    qed
    have step: "Reverse_loop (counting d) (int i) (int j) (st, c)
        = Reverse_loop (counting d) (int (Suc i)) (int j') (st1, Suc c)"
      using True sw idx by (simp add: Reverse_loop.simps [of _ "int i" "int j"] add.commute)
    have "\<forall>k < length (content st). content st' ! k =
              (if i \<le> k \<and> k \<le> j then content st ! (i + j - k) else content st ! k)"
    proof (intro allI impI)
      fix k assume k: "k < length (content st)"
      then have k1: "k < length (content st1)" using len1 by simp
      consider "k = i" | "k = j" | "Suc i \<le> k \<and> k \<le> j'" | "k < i" | "j < k"
        using j' by linarith
      then show "content st' ! k =
              (if i \<le> k \<and> k \<le> j then content st ! (i + j - k) else content st ! k)"
      proof cases
        case 1
        then show ?thesis using nth' k1 c1 True il less.prems(3) j' by (simp add: nth_list_update)
      next
        case 2
        then show ?thesis using nth' k1 c1 True il less.prems(3) j' by (simp add: nth_list_update)
      next
        case 3
        then have "Suc i + j' - k \<noteq> i" "Suc i + j' - k \<noteq> j" "Suc i + j' - k = i + j - k"
          using j' by auto
        moreover have "Suc i + j' - k < length (content st)" using 3 j' less.prems(3) by auto
        ultimately show ?thesis using nth' k1 c1 3 j' by (simp add: nth_list_update)
      next
        case 4
        then show ?thesis using nth' k1 c1 True j' by (simp add: nth_list_update)
      next
        case 5
        then show ?thesis using nth' k1 c1 True j' by (simp add: nth_list_update)
      qed
    qed
    then show ?thesis using step run ok' len' len1 cnt by simp
  qed
qed


lemma Reverse_loop_uncounted:
  "Reverse_loop (counting d) i j (st, c) = Returned (st', c') \<Longrightarrow>
   Reverse_loop d i j st = Returned st'"
proof (induction d i j st arbitrary: c rule: Reverse_loop.induct)
  case (1 d i j st)
  show ?case
  proof (cases "i < j")
    case False
    with "1.prems" show ?thesis
      by (simp add: Reverse_loop.simps [of _ i j])
  next
    case True
    show ?thesis
    proof (cases "Swap d st i j")
      case (Inl e)
      with True "1.prems" show ?thesis by (simp add: Reverse_loop.simps [of _ i j])
    next
      case (Inr st1)
      with True "1.prems"
      have "Reverse_loop (counting d) (i + 1) (j - 1) (st1, Suc c) = Returned (st', c')"
        by (simp add: Reverse_loop.simps [of "counting d" i j])
      from "1.IH" [OF True Inr this] True Inr show ?thesis
        by (simp add: Reverse_loop.simps [of d i j])
    qed
  qed
qed

lemma exchanges_Less_update:
  "exchanges d ok content \<Longrightarrow> exchanges (d\<lparr>Less := cmp\<rparr>) ok content"
  by (simp add: exchanges_def)


text \<open>
  Claim C9. For every sequence exposing \<^verbatim>\<open>Len\<close> and \<^verbatim>\<open>Swap\<close>, \<^verbatim>\<open>Reverse\<close> returns with
  the sequence reversed in place: the element at position \<open>i\<close> is the one that was at
  position \<open>n - 1 - i\<close>. It makes exactly \<open>n div 2\<close> swaps (the counter of \<open>counting\<close>) and
  no comparison: the result is the same whatever \<^verbatim>\<open>Less\<close> is, also one that panics on
  every call.
\<close>

theorem C9_Reverse_reverses:
  assumes "exchanges d ok content" and "ok st"
  shows "\<exists>st'. Reverse (counting (d\<lparr>Less := cmp\<rparr>)) (st, 0)
                 = Returned (st', length (content st) div 2)
             \<and> Reverse (d\<lparr>Less := cmp\<rparr>) st = Returned st'
             \<and> length (content st') = length (content st)
             \<and> (\<forall>i < length (content st).
                   content st' ! i = content st ! (length (content st) - 1 - i))"
proof -
  let ?d = "d\<lparr>Less := cmp\<rparr>"
  let ?n = "length (content st)"
  have ex: "exchanges ?d ok content" using assms(1) by (rule exchanges_Less_update)
  have len: "Len ?d st = int ?n" using exchanges_Len [OF ex assms(2)] .
  show ?thesis
  proof (cases "?n = 0")
    case True
    then show ?thesis
      using len by (simp add: Reverse_def Reverse_loop.simps [of _ 0 "- 1"])
  next
    case False
    then obtain m where m: "?n = Suc m" by (cases ?n) auto
    have j: "int ?n - 1 = int m" using m by simp
    from Reverse_loop_counting [OF ex assms(2), of 0 m 0] m
    obtain st' where run: "Reverse_loop (counting ?d) (int 0) (int m) (st, 0)
            = Returned (st', 0 + (Suc m - 0) div 2)"
      and len': "length (content st') = ?n"
      and nth': "\<forall>k < ?n. content st' ! k =
              (if 0 \<le> k \<and> k \<le> m then content st ! (0 + m - k) else content st ! k)"
      by auto
    have plain: "Reverse_loop ?d 0 (int m) st = Returned st'"
      using Reverse_loop_uncounted [OF run] by simp
    have "\<forall>i < ?n. content st' ! i = content st ! (?n - 1 - i)"
      using nth' m by auto
    then show ?thesis
      using run plain len len' j m by (auto simp: Reverse_def)
  qed
qed

lemma slice_exchanges:
  assumes "Len d = slice_Len" and "Swap d = slice_Swap"
  shows "exchanges d (\<lambda>xs. True) (\<lambda>xs. xs)"
  using assms
  by (auto simp: exchanges_def slice_Len_def slice_Swap_def slice_index_def bnd_def
        list_update_swap)

theorem C9_Reverse_reverses_witness:
  "exchanges SortableItems (\<lambda>xs. True) (\<lambda>xs. xs)
   \<and> (\<exists>st'. Reverse (counting (SortableItems\<lparr>Less := \<lambda>xs i j. Inl ValueError\<rparr>))
                ([item 4, item 2, item 6, item 4, item 8], 0)
                 = Returned (st', 2)
             \<and> Reverse (SortableItems\<lparr>Less := \<lambda>xs i j. Inl ValueError\<rparr>)
                 [item 4, item 2, item 6, item 4, item 8] = Returned st'
             \<and> length st' = 5
             \<and> (\<forall>i < 5. st' ! i = [item 4, item 2, item 6, item 4, item 8] ! (5 - 1 - i)))"
proof -
  let ?xs = "[item 4, item 2, item 6, item 4, item 8]"
  let ?d = "SortableItems\<lparr>Less := \<lambda>xs i j. Inl ValueError\<rparr>"
  have ex: "exchanges SortableItems (\<lambda>xs. True) (\<lambda>xs. xs)"
    by (rule slice_exchanges) (simp_all add: SortableItems_def)
  have n: "length ?xs = 5" by simp
  obtain st' where
    "Reverse (counting ?d) (?xs, 0) = Returned (st', length ?xs div 2)"
    "Reverse ?d ?xs = Returned st'"
    "length st' = length ?xs"
    "\<forall>i < length ?xs. st' ! i = ?xs ! (length ?xs - 1 - i)"
    using C9_Reverse_reverses [OF ex, where st = ?xs and cmp = "\<lambda>xs i j. Inl ValueError"]
    by blast
  then have "Reverse (counting ?d) (?xs, 0) = Returned (st', 2)
      \<and> Reverse ?d ?xs = Returned st' \<and> length st' = 5
      \<and> (\<forall>i < 5. st' ! i = ?xs ! (5 - 1 - i))"
    unfolding n by simp
  then show ?thesis using ex by blast
qed


subsection \<open>The collection is only permuted\<close>

text \<open>
  Claim C10. \<^verbatim>\<open>Sort\<close> (the function and the method) leaves a permutation of the
  collection it was given, whether it returns or panics; so do \<^verbatim>\<open>Reverse\<close> and
  \<^verbatim>\<open>SortReverse\<close> on every interface whose \<^verbatim>\<open>Swap\<close> permutes what it holds, as the
  sorter's own \<^verbatim>\<open>Swap\<close> does.
\<close>

theorem C10_only_permutes:
  assumes "\<forall>st i j st'. Swap d st i j = Inr st' \<longrightarrow> mset (content st') = mset (content st)"
  shows "mset (state_of (Sort H x g ord)) = mset x
       \<and> mset (V (state_of (Sorter_Sort H s))) = mset (V s)
       \<and> mset (content (state_of (Reverse d st))) = mset (content st)
       \<and> mset (content (state_of (SortReverse d st))) = mset (content st)"
proof -
  have sw: "\<And>st i j st'. Swap d st i j = Inr st' \<Longrightarrow> mset (content st') = mset (content st)"
    using assms by blast
  have "mset (content (state_of (Reverse d st))) = mset (content st)"
    using Reverse_keeps [of d "\<lambda>st. mset (content st)" st] sw by simp
  moreover have "mset (content (state_of (SortReverse d st))) = mset (content st)"
    using SortReverse_keeps [of d "\<lambda>st. mset (content st)" st] sw by simp
  ultimately show ?thesis
    by (simp add: Sort_mset Sorter_Sort_mset)
qed

theorem C10_only_permutes_witness:
  "mset (state_of (Sort three_cells three_pointers (Some (FieldGetter ''Id'')) Ascending))
       = mset three_pointers
   \<and> mset (V (state_of (Sorter_Sort three_cells pointers_sorter))) = mset (V pointers_sorter)
   \<and> mset (V (state_of (Reverse (intAscending three_cells) pointers_sorter)))
       = mset (V pointers_sorter)
   \<and> mset (V (state_of (SortReverse (intAscending three_cells) pointers_sorter)))
       = mset (V pointers_sorter)"
proof -
  have h: "\<forall>st i j st'. Swap (intAscending three_cells) st i j = Inr st'
             \<longrightarrow> mset (V st') = mset (V st)"
    by (simp add: intAscending_def Sorter_Swap_mset)
  show ?thesis
    using h C10_only_permutes [OF h, where H = three_cells and x = three_pointers
        and g = "Some (FieldGetter ''Id'')" and ord = Ascending and s = pointers_sorter
        and st = pointers_sorter]
    by simp
qed

subsection \<open>The panics of Sort\<close>

lemma Sorter_Sort_first_key:
  assumes "(case G s of None \<Rightarrow> SimpleGetter | Some g' \<Rightarrow> g') H (V s) = Inr (h # hs)"
    and "load H (V s) h = Inr k"
  shows "Sorter_Sort H s =
     Sort_switch H (s\<lparr>G := Some (case G s of None \<Rightarrow> SimpleGetter | Some g' \<Rightarrow> g'),
        vals := h # hs, valType := Type_of k, valKind := Kind_of k\<rparr>)"
  using assms by (simp add: Sorter_Sort_def Let_def vals_at_def bnd_def)

text \<open>
  Claim C4. Sorting an empty collection panics instead of returning: \<^verbatim>\<open>New\<close> indexes
  element 0 of the slice, and \<^verbatim>\<open>Sorter.Sort\<close> on a sorter whose slice is empty indexes
  \<^verbatim>\<open>s.vals[0]\<close>. The panic is the index-out-of-range panic (the condition the
  specification calls EmptyCollection); the collection is left empty.
\<close>

theorem C4_empty_collection_panics:
  "Sort H [] g ord = Panicked IndexOutOfRange []
   \<and> Sorter_Sort H (s\<lparr>V := [], G := None\<rparr>)
       = Panicked IndexOutOfRange (s\<lparr>V := [], G := Some SimpleGetter, vals := []\<rparr>)"
  by (simp add: Sort_def New_def Sorter_Sort_def SimpleGetter_def vals_at_def bnd_def)

text \<open>
  Claim C5. On a non-empty collection whose first extracted key is a boolean, a signed
  or unsigned integer, a float or a \<^verbatim>\<open>time.Time\<close>, \<^verbatim>\<open>Sort\<close> with a case-insensitive
  ordering panics with "Invalid ordering" and leaves the collection as it was.
\<close>

theorem C5_case_insensitive_needs_strings:
  assumes "x \<noteq> []"
    and "(case g of None \<Rightarrow> SimpleGetter | Some g' \<Rightarrow> g') H x = Inr (h # hs)"
    and "load H x h = Inr k"
    and "Kind_of k \<in> {Bool, IntK, Int8, Int16, Int32, Int64, Uint, Uint8, Uint16, Uint32,
           Uint64, Float32, Float64} \<or> Type_of k = t_time"
    and "ord = CaseInsensitiveAscending \<or> ord = CaseInsensitiveDescending"
  shows "\<exists>w. Sort H x g ord = Panicked (InvalidOrdering ord w) x"
proof -
  obtain s where s: "New x g ord = Inr s" "V s = x" "G s = g" "Ordering s = ord"
    using assms(1) by (simp add: New_def)
  let ?s' = "s\<lparr>G := Some (case G s of None \<Rightarrow> SimpleGetter | Some g' \<Rightarrow> g'),
        vals := h # hs, valType := Type_of k, valKind := Kind_of k\<rparr>"
  have run: "Sorter_Sort H s = Sort_switch H ?s'"
    using assms(2,3) s by (intro Sorter_Sort_first_key) simp_all
  have "\<exists>w. Sort_switch H ?s' = Panicked (InvalidOrdering ord w) ?s'"
    using assms(4,5) s(4)
    by (cases k)
       (auto simp: Sort_switch_def Sort_default_def Sort_time_def Sort_booleans_def
          Sort_ints_def Sort_uints_def Sort_floats_def t_time_def Ordering_defs
          split: if_splits bits.splits fbits.splits)
  then show ?thesis
    using run s by (auto simp: Sort_def)
qed

theorem C5_case_insensitive_needs_strings_witness:
  "[VInt B0 3, VInt B0 1] \<noteq> []
   \<and> (case None of None \<Rightarrow> SimpleGetter | Some g' \<Rightarrow> g') Map.empty [VInt B0 3, VInt B0 1]
       = Inr [Value (Slot 0) [], Value (Slot 1) []]
   \<and> load Map.empty [VInt B0 3, VInt B0 1] (Value (Slot 0) []) = Inr (VInt B0 3)
   \<and> Kind_of (VInt B0 3) = IntK
   \<and> (\<exists>w. Sort Map.empty [VInt B0 3, VInt B0 1] None CaseInsensitiveAscending
            = Panicked (InvalidOrdering CaseInsensitiveAscending w) [VInt B0 3, VInt B0 1])"
proof -
  have a: "[VInt B0 3, VInt B0 1] \<noteq> []" by simp
  have b: "(case None of None \<Rightarrow> SimpleGetter | Some g' \<Rightarrow> g') Map.empty [VInt B0 3, VInt B0 1]
       = Inr [Value (Slot 0) [], Value (Slot 1) []]"
    by (simp add: SimpleGetter_def upt_rec)
  have c: "load Map.empty [VInt B0 3, VInt B0 1] (Value (Slot 0) []) = Inr (VInt B0 3)"
    by (simp add: fetch_def bnd_def)
  have d: "Kind_of (VInt B0 3) \<in> {Bool, IntK, Int8, Int16, Int32, Int64, Uint, Uint8, Uint16,
           Uint32, Uint64, Float32, Float64} \<or> Type_of (VInt B0 3) = t_time"
    by simp
  have e: "CaseInsensitiveAscending = CaseInsensitiveAscending
           \<or> CaseInsensitiveAscending = CaseInsensitiveDescending"
    by simp
  show ?thesis
    using C5_case_insensitive_needs_strings [OF a b c d e] a b c by simp
qed

text \<open>
  Claim C6. On a non-empty collection whose first extracted key is not of a string,
  boolean, signed-integer, unsigned-integer or floating-point kind that the switch
  lists, and not a \<^verbatim>\<open>time.Time\<close>, \<^verbatim>\<open>Sort\<close> panics with "Cannot sort by type" and leaves
  the collection as it was.
\<close>

theorem C6_unsupported_type_panics:
  assumes "x \<noteq> []"
    and "(case g of None \<Rightarrow> SimpleGetter | Some g' \<Rightarrow> g') H x = Inr (h # hs)"
    and "load H x h = Inr k"
    and "Kind_of k \<notin> {String, Bool, IntK, Int8, Int16, Int32, Int64, Uint, Uint8, Uint16,
           Uint32, Uint64, Float32, Float64}"
    and "Type_of k \<noteq> t_time"
  shows "Sort H x g ord = Panicked (CannotSortByType (Type_of k)) x"
proof -
  obtain s where s: "New x g ord = Inr s" "V s = x" "G s = g" "Ordering s = ord"
    using assms(1) by (simp add: New_def)
  let ?s' = "s\<lparr>G := Some (case G s of None \<Rightarrow> SimpleGetter | Some g' \<Rightarrow> g'),
        vals := h # hs, valType := Type_of k, valKind := Kind_of k\<rparr>"
  have run: "Sorter_Sort H s = Sort_switch H ?s'"
    using assms(2,3) s by (intro Sorter_Sort_first_key) simp_all
  have "Sort_switch H ?s' = Panicked (CannotSortByType (Type_of k)) ?s'"
    using assms(4,5)
    by (cases "Kind_of k") (auto simp: Sort_switch_def Sort_default_def)
  then show ?thesis
    using run s by (auto simp: Sort_def)
qed

theorem C6_unsupported_type_panics_witness:
  "[invalid_struct] \<noteq> []
   \<and> (case Some (FieldGetter ''Invalid'') of None \<Rightarrow> SimpleGetter | Some g' \<Rightarrow> g')
        Map.empty [invalid_struct] = Inr [Value (Slot 0) [''Invalid'']]
   \<and> load Map.empty [invalid_struct] (Value (Slot 0) [''Invalid''])
       = Inr (VStruct [(''Foo'', VString ''foo''), (''Bar'', VInt B0 123)])
   \<and> Sort Map.empty [invalid_struct] (Some (FieldGetter ''Invalid'')) Ascending
       = Panicked (CannotSortByType (OtherType Struct)) [invalid_struct]"
proof -
  let ?k = "VStruct [(''Foo'', VString ''foo''), (''Bar'', VInt B0 123)]"
  have a: "[invalid_struct] \<noteq> []" by simp
  have c: "load Map.empty [invalid_struct] (Value (Slot 0) [''Invalid'']) = Inr ?k"
    by (simp add: invalid_struct_def fetch_def bnd_def)
  have b: "(case Some (FieldGetter ''Invalid'') of None \<Rightarrow> SimpleGetter | Some g' \<Rightarrow> g')
        Map.empty [invalid_struct] = Inr [Value (Slot 0) [''Invalid'']]"
    by (simp add: FieldGetter_def invalid_struct_def fetch_def bnd_def)
  have d: "Kind_of ?k \<notin> {String, Bool, IntK, Int8, Int16, Int32, Int64, Uint, Uint8, Uint16,
           Uint32, Uint64, Float32, Float64}"
    by simp
  have e: "Type_of ?k \<noteq> t_time" by (simp add: t_time_def)
  show ?thesis
    using C6_unsupported_type_panics [OF a b c d e, of Ascending] a b c by simp
qed

subsection \<open>The float comparisons and NaN\<close>

text \<open>
  Claim C3, as amended. When the key at \<open>i\<close> is NaN and the key at \<open>j\<close> is not, the
  ascending comparison puts \<open>i\<close> before \<open>j\<close> and the descending comparison puts \<open>j\<close> before
  \<open>i\<close>: NaN is ordered as smaller than every other float under both orderings, first in
  ascending order and last in descending order (as \<^verbatim>\<open>sort.Float64Slice\<close> does).
\<close>

theorem C3_NaN_sorts_as_smallest:
  assumes "bnd (key H s i) Float_of = Inr NaN"
    and "bnd (key H s j) Float_of = Inr b"
    and "\<not> IsNaN b"
  shows "floatAscending_Less H s i j = Inr True \<and> floatAscending_Less H s j i = Inr False
       \<and> floatDescending_Less H s j i = Inr True \<and> floatDescending_Less H s i j = Inr False"
  using assms
  by (cases b) (simp_all add: floatAscending_Less_def floatDescending_Less_def bnd_def float_gt_def)

theorem C3_NaN_sorts_as_smallest_witness:
  "bnd (key Map.empty nan_and_zero 0) Float_of = Inr NaN
   \<and> bnd (key Map.empty nan_and_zero 1) Float_of = Inr (Finite 0)
   \<and> \<not> IsNaN (Finite 0)
   \<and> floatAscending_Less Map.empty nan_and_zero 0 1 = Inr True
   \<and> floatAscending_Less Map.empty nan_and_zero 1 0 = Inr False
   \<and> floatDescending_Less Map.empty nan_and_zero 1 0 = Inr True
   \<and> floatDescending_Less Map.empty nan_and_zero 0 1 = Inr False"
proof -
  have a: "bnd (key Map.empty nan_and_zero 0) Float_of = Inr NaN"
    by (simp add: key_def vals_at_def nan_and_zero_def bnd_def fetch_def)
  have b: "bnd (key Map.empty nan_and_zero 1) Float_of = Inr (Finite 0)"
    by (simp add: key_def vals_at_def nan_and_zero_def bnd_def fetch_def)
  have c: "\<not> IsNaN (Finite 0)" by simp
  show ?thesis
    using C3_NaN_sorts_as_smallest [OF a b c] a b c by simp
qed

text \<open>
  Claim C3 as stated says that the ascending comparison treats NaN as greater than every
  other value. On \<^verbatim>\<open>[]float64{NaN, 0}\<close> the ascending \<^verbatim>\<open>Less(0, 1)\<close> is true and
  \<^verbatim>\<open>Less(1, 0)\<close> is false: NaN is less than 0; and an ascending sort of
  \<^verbatim>\<open>{1, NaN, 0}\<close> puts NaN first.
\<close>

theorem C3_ascending_NaN_counterexample:
  "floatAscending_Less Map.empty nan_and_zero 0 1 = Inr True
   \<and> floatAscending_Less Map.empty nan_and_zero 1 0 = Inr False
   \<and> Sort Map.empty [VFloat F64 (Finite 1), VFloat F64 NaN, VFloat F64 (Finite 0)] None Ascending
       = Returned [VFloat F64 NaN, VFloat F64 (Finite 0), VFloat F64 (Finite 1)]"
  by code_simp

subsection \<open>Runs on concrete collections\<close>

text \<open>
  Claim C8. Sorting the strings \<^verbatim>\<open>{"A", "a", "b", "C"}\<close> case-insensitively ascending
  returns \<^verbatim>\<open>["A", "a", "b", "C"]\<close>: the keys are compared lowered, and the two keys that
  are equal when lowered keep the order they came in (given as \<^verbatim>\<open>"a", "A"\<close> they stay
  \<^verbatim>\<open>"a", "A"\<close>).
\<close>

theorem C8_case_insensitive_example:
  "Sort Map.empty [VString ''A'', VString ''a'', VString ''b'', VString ''C''] None
       CaseInsensitiveAscending
     = Returned [VString ''A'', VString ''a'', VString ''b'', VString ''C'']
   \<and> Sort Map.empty [VString ''a'', VString ''A'', VString ''C'', VString ''b''] None
       CaseInsensitiveAscending
     = Returned [VString ''a'', VString ''A'', VString ''b'', VString ''C'']"
  by code_simp

text \<open>
  Claim C1 fails on a slice of pointers. \<open>three_pointers\<close> is \<^verbatim>\<open>[]*Item\<close> with the
  \<^verbatim>\<open>Id\<close>s 2, 3, 1, sorted by \<^verbatim>\<open>AscByField(x, "Id")\<close>. The call returns with the pointers in
  the order 0, 2, 1, whose \<^verbatim>\<open>Id\<close>s are 2, 1, 3: the keys of the collection are not sorted,
  and the sorter's own \<^verbatim>\<open>Less(2, 1)\<close> is true on the state the call leaves. The same items
  held by value are sorted as the claim says.
\<close>

theorem C1_pointer_slice_left_unsorted:
  "AscByField three_cells three_pointers ''Id'' = Returned [VPtr 0, VPtr 2, VPtr 1]
   \<and> keys_of three_cells (FieldGetter ''Id'') [VPtr 0, VPtr 2, VPtr 1]
     = Inr [VInt B64 2, VInt B64 1, VInt B64 3]
   \<and> bnd (New three_pointers (Some (FieldGetter ''Id'')) Ascending)
         (\<lambda>s. intAscending_Less three_cells (state_of (Sorter_Sort three_cells s)) 2 1)
     = Inr True
   \<and> AscByField Map.empty three_items ''Id'' = Returned [item 1, item 2, item 3]"
  by code_simp

text \<open>
  Claim C2 fails on a slice of pointers. \<open>pointers_sorter\<close> holds the keys \<^verbatim>\<open>Sort\<close> has
  extracted from \<open>three_pointers\<close>. \<^verbatim>\<open>Swap(1, 2)\<close> exchanges the pointers in slots 1 and 2,
  and the keys at 1 and 2 read 3 and 1 as before: they still lead to the structs the
  pointers led to when the keys were extracted, while the elements now at 1 and 2 have
  the \<^verbatim>\<open>Id\<close>s 1 and 3.
\<close>

theorem C2_swap_leaves_pointer_keys_behind:
  "FieldGetter ''Id'' three_cells three_pointers = Inr (vals pointers_sorter)
   \<and> key three_cells pointers_sorter 1 = Inr (VInt B64 3)
   \<and> key three_cells pointers_sorter 2 = Inr (VInt B64 1)
   \<and> bnd (Sorter_Swap pointers_sorter 1 2) (\<lambda>s'. Inr (V s')) = Inr [VPtr 0, VPtr 2, VPtr 1]
   \<and> bnd (Sorter_Swap pointers_sorter 1 2) (\<lambda>s'. key three_cells s' 1) = Inr (VInt B64 3)
   \<and> bnd (Sorter_Swap pointers_sorter 1 2) (\<lambda>s'. key three_cells s' 2) = Inr (VInt B64 1)
   \<and> keys_of three_cells (FieldGetter ''Id'') [VPtr 0, VPtr 2, VPtr 1]
     = Inr [VInt B64 2, VInt B64 1, VInt B64 3]"
  by code_simp

text \<open>
  Claim C7 fails on a slice of pointers. Sorting \<open>three_pointers\<close> ascending by \<^verbatim>\<open>Id\<close>
  and reversing the slice gives the pointers 1, 2, 0 (\<^verbatim>\<open>Id\<close>s 3, 1, 2); sorting it
  descending gives 1, 0, 2 (\<^verbatim>\<open>Id\<close>s 3, 2, 1).
\<close>

theorem C7_pointer_slice_round_trip_differs:
  "AscByField three_cells three_pointers ''Id'' = Returned [VPtr 0, VPtr 2, VPtr 1]
   \<and> Reverse (SortablePointers three_cells) [VPtr 0, VPtr 2, VPtr 1]
     = Returned [VPtr 1, VPtr 2, VPtr 0]
   \<and> DescByField three_cells three_pointers ''Id'' = Returned [VPtr 1, VPtr 0, VPtr 2]
   \<and> keys_of three_cells (FieldGetter ''Id'') [VPtr 1, VPtr 2, VPtr 0]
     = Inr [VInt B64 3, VInt B64 1, VInt B64 2]
   \<and> keys_of three_cells (FieldGetter ''Id'') [VPtr 1, VPtr 0, VPtr 2]
     = Inr [VInt B64 3, VInt B64 2, VInt B64 1]"
  by code_simp


subsection \<open>The exchange sort on an interface that exposes a sequence\<close>

lemma comparesD:
  assumes "compares d ok content keyf lt" "ok st" "i < length (content st)"
    "j < length (content st)"
  shows "Less d st (int i) (int j) = Inr (lt (keyf (content st ! i)) (keyf (content st ! j)))"
  using assms unfolding compares_def by blast

lemma insertionSort_inner_sorts:
  assumes ex: "exchanges d ok content"
    and cmp: "compares d ok content keyf lt"
    and asym: "\<And>a b. lt a b \<Longrightarrow> \<not> lt b a"
  shows "ok st \<Longrightarrow> j \<le> i \<Longrightarrow> i < length (content st) \<Longrightarrow>
     (\<forall>k. 0 < k \<and> k \<le> i \<and> k \<noteq> j \<longrightarrow>
         \<not> lt (keyf (content st ! k)) (keyf (content st ! (k - 1)))) \<Longrightarrow>
     (0 < j \<and> j < i \<longrightarrow> \<not> lt (keyf (content st ! Suc j)) (keyf (content st ! (j - 1)))) \<Longrightarrow>
     \<exists>st'. insertionSort_inner d 0 (int j) st = Returned st' \<and> ok st'
        \<and> length (content st') = length (content st)
        \<and> mset (content st') = mset (content st)
        \<and> (\<forall>k. 0 < k \<and> k \<le> i \<longrightarrow>
              \<not> lt (keyf (content st' ! k)) (keyf (content st' ! (k - 1))))"
proof (induction j arbitrary: st)
  case 0
  then show ?case
    by (auto simp: insertionSort_inner.simps [of d 0 0])
next
  case (Suc j)
  let ?xs = "content st"
  have jl: "j < length ?xs" "Suc j < length ?xs" using Suc.prems by simp_all
  have less: "Less d st (int (Suc j)) (int (Suc j) - 1)
      = Inr (lt (keyf (?xs ! Suc j)) (keyf (?xs ! j)))"
    using comparesD [OF cmp Suc.prems(1) jl(2) jl(1)] by simp
  show ?case
  proof (cases "lt (keyf (?xs ! Suc j)) (keyf (?xs ! j))")
    case False
    have "\<forall>k. 0 < k \<and> k \<le> i \<longrightarrow> \<not> lt (keyf (?xs ! k)) (keyf (?xs ! (k - 1)))"
    proof (intro allI impI)
      fix k assume k: "0 < k \<and> k \<le> i"
      show "\<not> lt (keyf (?xs ! k)) (keyf (?xs ! (k - 1)))"
      proof (cases "k = Suc j")
        case True
        then show ?thesis using False by simp
      next
        case False
        then show ?thesis using Suc.prems(4) k by blast
      qed
    qed
    moreover have "insertionSort_inner d 0 (int (Suc j)) st = Returned st"
      using less False by (subst insertionSort_inner.simps) simp
    ultimately show ?thesis using Suc.prems(1) by auto
  next
    case True
    obtain st1 where sw: "Swap d st (int (Suc j)) (int j) = Inr st1" and ok1: "ok st1"
      and c1: "content st1 = ?xs[Suc j := ?xs ! j, j := ?xs ! Suc j]"
      using exchangesD [OF ex Suc.prems(1) jl(2) jl(1)] by blast
    have len1: "length (content st1) = length ?xs" using c1 by simp
    have mset1: "mset (content st1) = mset ?xs"
      using c1 jl by (simp add: mset_swap)
    have nth1: "\<And>k. k < length ?xs \<Longrightarrow> content st1 ! k =
        (if k = j then ?xs ! Suc j else if k = Suc j then ?xs ! j else ?xs ! k)"
      using c1 jl by (auto simp: nth_list_update)
    have inv1: "\<forall>k. 0 < k \<and> k \<le> i \<and> k \<noteq> j \<longrightarrow>
         \<not> lt (keyf (content st1 ! k)) (keyf (content st1 ! (k - 1)))"
    proof (intro allI impI)
      fix k assume k: "0 < k \<and> k \<le> i \<and> k \<noteq> j"
      then have kl: "k < length ?xs" "k - 1 < length ?xs" using Suc.prems(3) by auto
      consider "k = Suc j" | "k = Suc (Suc j)" | "k < j" | "Suc (Suc j) < k"
        using k by linarith
      then show "\<not> lt (keyf (content st1 ! k)) (keyf (content st1 ! (k - 1)))"
      proof cases
        case 1
        then have "content st1 ! k = ?xs ! j" "content st1 ! (k - 1) = ?xs ! Suc j"
          using nth1 [OF kl(1)] nth1 [OF kl(2)] by simp_all
        then show ?thesis using asym [OF True] by simp
      next
        case 2
        then have "Suc j < i" using k by simp
        then have "\<not> lt (keyf (?xs ! Suc (Suc j))) (keyf (?xs ! j))"
          using Suc.prems(5) by simp
        moreover have "content st1 ! k = ?xs ! Suc (Suc j)" "content st1 ! (k - 1) = ?xs ! j"
          using 2 nth1 [OF kl(1)] nth1 [OF kl(2)] by simp_all
        ultimately show ?thesis by simp
      next
        case 3
        then have "\<not> lt (keyf (?xs ! k)) (keyf (?xs ! (k - 1)))"
          using Suc.prems(4) k by simp
        moreover have "k \<noteq> j" "k \<noteq> Suc j" "k - 1 \<noteq> j" "k - 1 \<noteq> Suc j" using 3 by auto
        then have "content st1 ! k = ?xs ! k" "content st1 ! (k - 1) = ?xs ! (k - 1)"
          using nth1 [OF kl(1)] nth1 [OF kl(2)] by simp_all
        ultimately show ?thesis by simp
      next
        case 4
        then have "\<not> lt (keyf (?xs ! k)) (keyf (?xs ! (k - 1)))"
          using Suc.prems(4) k by simp
        moreover have "k \<noteq> j" "k \<noteq> Suc j" "k - 1 \<noteq> j" "k - 1 \<noteq> Suc j" using 4 by auto
        then have "content st1 ! k = ?xs ! k" "content st1 ! (k - 1) = ?xs ! (k - 1)"
          using nth1 [OF kl(1)] nth1 [OF kl(2)] by simp_all
        ultimately show ?thesis by simp
      qed
    qed
    have inv2: "0 < j \<and> j < i \<longrightarrow>
        \<not> lt (keyf (content st1 ! Suc j)) (keyf (content st1 ! (j - 1)))"
    proof
      assume j: "0 < j \<and> j < i"
      then have "\<not> lt (keyf (?xs ! j)) (keyf (?xs ! (j - 1)))"
        using Suc.prems(4) by simp
      moreover have "j - 1 < length ?xs" "j - 1 \<noteq> j" "j - 1 \<noteq> Suc j" using jl j by auto
      then have "content st1 ! (j - 1) = ?xs ! (j - 1)" using nth1 [of "j - 1"] by simp
      moreover have "content st1 ! Suc j = ?xs ! j" using nth1 [OF jl(2)] by simp
      ultimately show "\<not> lt (keyf (content st1 ! Suc j)) (keyf (content st1 ! (j - 1)))"
        by simp
    qed
    have "j \<le> i" "i < length (content st1)" using Suc.prems len1 by simp_all
    from Suc.IH [OF ok1 this inv1 inv2]
    obtain st' where run: "insertionSort_inner d 0 (int j) st1 = Returned st'"
      and rest: "ok st'" "length (content st') = length (content st1)"
        "mset (content st') = mset (content st1)"
        "\<forall>k. 0 < k \<and> k \<le> i \<longrightarrow>
              \<not> lt (keyf (content st' ! k)) (keyf (content st' ! (k - 1)))"
      by blast
    have "insertionSort_inner d 0 (int (Suc j)) st = insertionSort_inner d 0 (int j) st1"
      using less True sw by (subst insertionSort_inner.simps) simp
    then show ?thesis using run rest len1 mset1 by simp
  qed
qed

lemma insertionSort_outer_sorts:
  assumes ex: "exchanges d ok content"
    and cmp: "compares d ok content keyf lt"
    and asym: "\<And>a b. lt a b \<Longrightarrow> \<not> lt b a"
  shows "ok st \<Longrightarrow> 0 < i \<Longrightarrow> i \<le> n \<Longrightarrow> n = length (content st) \<Longrightarrow>
     (\<forall>k. 0 < k \<and> k < i \<longrightarrow>
         \<not> lt (keyf (content st ! k)) (keyf (content st ! (k - 1)))) \<Longrightarrow>
     \<exists>st'. insertionSort_outer d 0 (int i) (int n) st = Returned st' \<and> ok st'
        \<and> mset (content st') = mset (content st)
        \<and> (\<forall>k. 0 < k \<and> k < length (content st') \<longrightarrow>
              \<not> lt (keyf (content st' ! k)) (keyf (content st' ! (k - 1))))"
proof (induction "n - i" arbitrary: i st)
  case 0
  then have "i = n" by simp
  moreover have "insertionSort_outer d 0 (int n) (int n) st = Returned st"
    by (subst insertionSort_outer.simps) simp
  ultimately show ?case
    using 0 by auto
next
  case (Suc m)
  then have il: "i < n" by simp
  have inv: "\<forall>k. 0 < k \<and> k \<le> i \<and> k \<noteq> i \<longrightarrow>
         \<not> lt (keyf (content st ! k)) (keyf (content st ! (k - 1)))"
    using Suc.prems(5) by simp
  have "i \<le> i" "i < length (content st)" using il Suc.prems by simp_all
  from insertionSort_inner_sorts [OF ex cmp asym Suc.prems(1) this inv]
  obtain st1 where run1: "insertionSort_inner d 0 (int i) st = Returned st1"
    and ok1: "ok st1" and len1: "length (content st1) = length (content st)"
    and mset1: "mset (content st1) = mset (content st)"
    and sorted1: "\<forall>k. 0 < k \<and> k \<le> i \<longrightarrow>
              \<not> lt (keyf (content st1 ! k)) (keyf (content st1 ! (k - 1)))"
    by auto
  have "m = n - Suc i" using Suc.hyps(2) by simp
  moreover have "0 < Suc i" "Suc i \<le> n" "n = length (content st1)"
    using il len1 Suc.prems by simp_all
  moreover have "\<forall>k. 0 < k \<and> k < Suc i \<longrightarrow>
         \<not> lt (keyf (content st1 ! k)) (keyf (content st1 ! (k - 1)))"
    using sorted1 by simp
  ultimately obtain st' where run: "insertionSort_outer d 0 (int (Suc i)) (int n) st1 = Returned st'"
    and rest: "ok st'" "mset (content st') = mset (content st1)"
      "\<forall>k. 0 < k \<and> k < length (content st') \<longrightarrow>
              \<not> lt (keyf (content st' ! k)) (keyf (content st' ! (k - 1)))"
    using Suc.hyps(1) [OF _ ok1] by blast
  have "insertionSort_outer d 0 (int i) (int n) st
      = insertionSort_outer d 0 (int (Suc i)) (int n) st1"
    using il run1 by (subst insertionSort_outer.simps) (simp add: add.commute)
  then show ?case using run rest mset1 by simp
qed

lemma sort_Sort_sorts:
  assumes ex: "exchanges d ok content"
    and cmp: "compares d ok content keyf lt"
    and asym: "\<And>a b. lt a b \<Longrightarrow> \<not> lt b a"
    and ok: "ok st"
  shows "\<exists>st'. sort_Sort d st = Returned st' \<and> ok st'
        \<and> mset (content st') = mset (content st)
        \<and> (\<forall>k. 0 < k \<and> k < length (content st') \<longrightarrow>
              \<not> lt (keyf (content st' ! k)) (keyf (content st' ! (k - 1))))"
proof (cases "length (content st) = 0")
  case True
  then show ?thesis
    using ok exchanges_Len [OF ex ok]
    by (subst sort_Sort_def, subst insertionSort_def, subst insertionSort_outer.simps) simp
next
  case False
  then have "0 < (1::nat)" "1 \<le> length (content st)"
    by (simp_all add: Suc_le_eq)
  from insertionSort_outer_sorts [OF ex cmp asym ok this refl]
  show ?thesis
    using exchanges_Len [OF ex ok] by (simp add: sort_Sort_def insertionSort_def)
qed


lemma Sorter_Less_Some:
  "Sorter_Less H s = Some cmp \<Longrightarrow>
   Sort_switch H s = sort_Sort \<lparr>Len = Sorter_Len, Less = cmp, Swap = Sorter_Swap\<rparr> s"
  by (cases "valKind s")
     (auto simp: Sorter_Less_def Less_for_def Less_by_ordering_def Sort_switch_def branch_defs wrapper_defs
        Ordering_defs split: if_splits)

lemma Sorter_Less_None:
  "Sorter_Less H s = None \<Longrightarrow> \<exists>e. Sort_switch H s = Panicked e s"
  by (cases "valKind s")
     (auto simp: Sorter_Less_def Less_for_def Less_by_ordering_def Sort_switch_def branch_defs
        Ordering_defs split: if_splits)

subsection \<open>Collections held by value\<close>

lemma keys_in_slots_length: "keys_in_slots names s \<Longrightarrow> length (vals s) = length (V s)"
  by (simp add: keys_in_slots_def)

lemma key_in_slot:
  assumes "keys_in_slots names s" and "i < length (V s)"
  shows "key H s (int i) = walk names (V s ! i)"
  using assms by (simp add: key_def vals_at_def keys_in_slots_def bnd_def fetch_def)

lemma readable_key:
  assumes "readable acc names xs" and "i < length xs"
  shows "bnd (walk names (xs ! i)) acc = Inr (key_by acc names (xs ! i))"
proof -
  have "xs ! i \<in> set xs" using assms(2) by simp
  then obtain k where "bnd (walk names (xs ! i)) acc = Inr k"
    using assms(1) unfolding readable_def by blast
  then show ?thesis by (simp add: key_by_def)
qed

lemma by_value_key:
  assumes "by_value acc names s" and "i < length (V s)"
  shows "bnd (key H s (int i)) acc = Inr (key_by acc names (V s ! i))"
  using assms key_in_slot [of names s i H] readable_key [of acc names "V s" i]
  by (simp add: by_value_def)

lemma Sorter_Swap_in_range:
  assumes "i < length (V s)" and "j < length (V s)"
  shows "Sorter_Swap s (int i) (int j) = Inr (s\<lparr>V := (V s)[i := V s ! j, j := V s ! i]\<rparr>)"
  using assms by (simp add: Sorter_Swap_def Let_def)

lemma by_value_exchanges:
  assumes "Len d = Sorter_Len" and "Swap d = Sorter_Swap"
  shows "exchanges d (by_value acc names) V"
  unfolding exchanges_def
proof (intro allI impI conjI)
  fix s assume ok: "by_value acc names s"
  show "Len d s = int (length (V s))"
    using ok assms(1) by (simp add: Sorter_Len_def by_value_def keys_in_slots_def)
next
  fix s i j
  assume ok: "by_value acc names s" and i: "i < length (V s)" and j: "j < length (V s)"
  let ?s' = "s\<lparr>V := (V s)[i := V s ! j, j := V s ! i]\<rparr>"
  have "set (V ?s') = set (V s)" using i j by simp
  then have "by_value acc names ?s'"
    using ok by (simp add: by_value_def keys_in_slots_def readable_def)
  then show "\<exists>st'. Swap d s (int i) (int j) = Inr st' \<and> by_value acc names st'
      \<and> V st' = (V s)[i := V s ! j, j := V s ! i]"
    using Sorter_Swap_in_range [OF i j] assms(2) by (intro exI [of _ ?s']) simp
qed

lemma by_value_compares:
  assumes "\<And>s i j. Less d s i j =
      bnd (bnd (key H s i) acc) (\<lambda>a. bnd (bnd (key H s j) acc) (\<lambda>b. Inr (lt a b)))"
  shows "compares d (by_value acc names) V (key_by acc names) lt"
  unfolding compares_def
  using by_value_key [of acc names _ _ H] by (simp add: assms bnd_def)

lemma string_Less_shape:
  "bnd (key H s i) (\<lambda>a. bnd (key H s j) (\<lambda>b. Inr (lt (f a) (f b))))
   = bnd (bnd (key H s i) (\<lambda>v. Inr (f v))) (\<lambda>a.
       bnd (bnd (key H s j) (\<lambda>v. Inr (f v))) (\<lambda>b. Inr (lt a b)))"
  by (simp add: bnd_def split: sum.splits)

lemma stringAscending_compares:
  "compares (stringAscending H) (by_value (\<lambda>v. Inr (String_of v)) names) V
     (key_by (\<lambda>v. Inr (String_of v)) names) str_lt"
  by (rule by_value_compares [where H = H])
     (simp add: stringAscending_def stringAscending_Less_def string_Less_shape)

lemma stringDescending_compares:
  "compares (stringDescending H) (by_value (\<lambda>v. Inr (String_of v)) names) V
     (key_by (\<lambda>v. Inr (String_of v)) names) (\<lambda>a b. str_lt b a)"
  by (rule by_value_compares [where H = H])
     (simp add: stringDescending_def stringDescending_Less_def
        string_Less_shape [where lt = "\<lambda>a b. str_lt b a"])

lemma stringInsensitiveAscending_compares:
  "compares (stringInsensitiveAscending H) (by_value (\<lambda>v. Inr (ToLower (String_of v))) names) V
     (key_by (\<lambda>v. Inr (ToLower (String_of v))) names) str_lt"
  by (rule by_value_compares [where H = H])
     (simp add: stringInsensitiveAscending_def stringInsensitiveAscending_Less_def
        string_Less_shape [where f = "\<lambda>v. ToLower (String_of v)"])

lemma stringInsensitiveDescending_compares:
  "compares (stringInsensitiveDescending H) (by_value (\<lambda>v. Inr (ToLower (String_of v))) names) V
     (key_by (\<lambda>v. Inr (ToLower (String_of v))) names) (\<lambda>a b. str_lt b a)"
  by (rule by_value_compares [where H = H])
     (simp add: stringInsensitiveDescending_def stringInsensitiveDescending_Less_def
        string_Less_shape [where f = "\<lambda>v. ToLower (String_of v)" and lt = "\<lambda>a b. str_lt b a"])

lemma boolAscending_compares:
  "compares (boolAscending H) (by_value Bool_of names) V (key_by Bool_of names)
     (\<lambda>a b. \<not> a \<and> b)"
  unfolding compares_def
proof (intro allI impI)
  fix s i j
  assume ok: "by_value Bool_of names s" and i: "i < length (V s)" and j: "j < length (V s)"
  show "Less (boolAscending H) s (int i) (int j)
      = Inr (\<not> key_by Bool_of names (V s ! i) \<and> key_by Bool_of names (V s ! j))"
    using by_value_key [OF ok i, of H] by_value_key [OF ok j, of H]
    by (simp add: boolAscending_def boolAscending_Less_def bnd_def)
qed

lemma boolDescending_compares:
  "compares (boolDescending H) (by_value Bool_of names) V (key_by Bool_of names)
     (\<lambda>a b. a \<and> \<not> b)"
  unfolding compares_def
proof (intro allI impI)
  fix s i j
  assume ok: "by_value Bool_of names s" and i: "i < length (V s)" and j: "j < length (V s)"
  show "Less (boolDescending H) s (int i) (int j)
      = Inr (key_by Bool_of names (V s ! i) \<and> \<not> key_by Bool_of names (V s ! j))"
    using by_value_key [OF ok i, of H] by_value_key [OF ok j, of H]
    by (simp add: boolDescending_def boolDescending_Less_def bnd_def)
qed

lemma intAscending_compares:
  "compares (intAscending H) (by_value Int_of names) V (key_by Int_of names) (\<lambda>a b. a < b)"
  by (rule by_value_compares [where H = H]) (simp add: intAscending_def intAscending_Less_def)

lemma intDescending_compares:
  "compares (intDescending H) (by_value Int_of names) V (key_by Int_of names) (\<lambda>a b. a > b)"
  by (rule by_value_compares [where H = H]) (simp add: intDescending_def intDescending_Less_def)

lemma uintAscending_compares:
  "compares (uintAscending H) (by_value Uint_of names) V (key_by Uint_of names) (\<lambda>a b. a < b)"
  by (rule by_value_compares [where H = H]) (simp add: uintAscending_def uintAscending_Less_def)

lemma uintDescending_compares:
  "compares (uintDescending H) (by_value Uint_of names) V (key_by Uint_of names) (\<lambda>a b. a > b)"
  by (rule by_value_compares [where H = H]) (simp add: uintDescending_def uintDescending_Less_def)

lemma floatAscending_compares:
  "compares (floatAscending H) (by_value Float_of names) V (key_by Float_of names)
     (\<lambda>a b. float_lt a b \<or> IsNaN a \<and> \<not> IsNaN b)"
  by (rule by_value_compares [where H = H])
     (simp add: floatAscending_def floatAscending_Less_def)

lemma floatDescending_compares:
  "compares (floatDescending H) (by_value Float_of names) V (key_by Float_of names)
     (\<lambda>a b. float_gt a b \<or> \<not> IsNaN a \<and> IsNaN b)"
  by (rule by_value_compares [where H = H])
     (simp add: floatDescending_def floatDescending_Less_def)

lemma timeAscending_compares:
  "compares (timeAscending H) (by_value Time_of names) V (key_by Time_of names) (\<lambda>a b. a < b)"
  by (rule by_value_compares [where H = H]) (simp add: timeAscending_def timeAscending_Less_def)

lemma timeDescending_compares:
  "compares (timeDescending H) (by_value Time_of names) V (key_by Time_of names) (\<lambda>a b. a > b)"
  by (rule by_value_compares [where H = H]) (simp add: timeDescending_def timeDescending_Less_def)

lemma str_lt_irrefl: "\<not> str_lt a a"
  by (induction a) auto

lemma str_lt_asym: "str_lt a b \<Longrightarrow> \<not> str_lt b a"
  by (induction a b rule: str_lt.induct) auto

lemma float_asc_asym:
  "float_lt a b \<or> IsNaN a \<and> \<not> IsNaN b \<Longrightarrow> \<not> (float_lt b a \<or> IsNaN b \<and> \<not> IsNaN a)"
  by (cases a; cases b) auto

lemma float_desc_asym:
  "float_gt a b \<or> \<not> IsNaN a \<and> IsNaN b \<Longrightarrow> \<not> (float_gt b a \<or> \<not> IsNaN b \<and> IsNaN a)"
  by (cases a; cases b) (auto simp: float_gt_def)

lemma sorts_with:
  assumes cmp: "compares \<lparr>Len = Sorter_Len, Less = cmp, Swap = Sorter_Swap\<rparr>
      (by_value acc names) V (key_by acc names) lt"
    and asym: "\<And>a b. lt a b \<Longrightarrow> \<not> lt b a"
    and ok: "by_value acc names s"
  shows "\<exists>s'. sort_Sort \<lparr>Len = Sorter_Len, Less = cmp, Swap = Sorter_Swap\<rparr> s = Returned s'
      \<and> by_value acc names s' \<and> mset (V s') = mset (V s)
      \<and> valKind s' = valKind s \<and> valType s' = valType s \<and> Ordering s' = Ordering s
      \<and> (\<forall>i. 0 \<le> i \<and> i + 1 < Sorter_Len s' \<longrightarrow> cmp s' (i + 1) i = Inr False)"
proof -
  let ?d = "\<lparr>Len = Sorter_Len, Less = cmp, Swap = Sorter_Swap\<rparr>"
  have ex: "exchanges ?d (by_value acc names) V"
    by (rule by_value_exchanges) simp_all
  from sort_Sort_sorts [OF ex cmp asym ok]
  obtain s' where run: "sort_Sort ?d s = Returned s'" and ok': "by_value acc names s'"
    and mset': "mset (V s') = mset (V s)"
    and sorted: "\<forall>k. 0 < k \<and> k < length (V s') \<longrightarrow>
        \<not> lt (key_by acc names (V s' ! k)) (key_by acc names (V s' ! (k - 1)))"
    by blast
  have frame: "(valKind s', valType s', Ordering s') = (valKind s, valType s, Ordering s)"
    using sort_Sort_keeps [of ?d "\<lambda>s. (valKind s, valType s, Ordering s)" s] run
      Sorter_Swap_frame
    by simp
  have "\<forall>i. 0 \<le> i \<and> i + 1 < Sorter_Len s' \<longrightarrow> cmp s' (i + 1) i = Inr False"
  proof (intro allI impI)
    fix i :: int assume i: "0 \<le> i \<and> i + 1 < Sorter_Len s'"
    define k where "k = nat i"
    have len: "length (vals s') = length (V s')"
      using ok' keys_in_slots_length [of names s'] by (simp add: by_value_def)
    have k: "Suc k < length (V s')" "k < length (V s')" "i = int k" "i + 1 = int (Suc k)"
      using i len by (auto simp: k_def Sorter_Len_def)
    have "Less ?d s' (int (Suc k)) (int k)
        = Inr (lt (key_by acc names (V s' ! Suc k)) (key_by acc names (V s' ! k)))"
      using comparesD [OF cmp ok' k(1) k(2)] .
    moreover have "\<not> lt (key_by acc names (V s' ! Suc k)) (key_by acc names (V s' ! k))"
      using sorted k(1) by (metis diff_Suc_1 zero_less_Suc)
    ultimately show "cmp s' (i + 1) i = Inr False"
      using k(3,4) by (simp add: add.commute)
  qed
  then show ?thesis using run ok' mset' frame by simp
qed

lemma Sorter_Less_cases:
  assumes "Sorter_Less H s = Some cmp"
  shows "(valKind s = String \<and> (cmp = stringAscending_Less H \<or> cmp = stringDescending_Less H
            \<or> cmp = stringInsensitiveAscending_Less H
            \<or> cmp = stringInsensitiveDescending_Less H))
       \<or> (valKind s = Bool \<and> (cmp = boolAscending_Less H \<or> cmp = boolDescending_Less H))
       \<or> (valKind s \<in> {IntK, Int8, Int16, Int32, Int64}
            \<and> (cmp = intAscending_Less H \<or> cmp = intDescending_Less H))
       \<or> (valKind s \<in> {Uint, Uint8, Uint16, Uint32, Uint64}
            \<and> (cmp = uintAscending_Less H \<or> cmp = uintDescending_Less H))
       \<or> (valKind s \<in> {Float32, Float64}
            \<and> (cmp = floatAscending_Less H \<or> cmp = floatDescending_Less H))
       \<or> (valType s = t_time \<and> (cmp = timeAscending_Less H \<or> cmp = timeDescending_Less H))"
  using assms
  by (cases "valKind s")
     (auto simp: Sorter_Less_def Less_for_def Less_by_ordering_def split: if_splits)

lemma Kind_other_unsorted:
  "Kind_other x \<noteq> Bool" "Kind_other x \<noteq> String"
  "Kind_other x \<noteq> IntK" "Kind_other x \<noteq> Int8" "Kind_other x \<noteq> Int16"
  "Kind_other x \<noteq> Int32" "Kind_other x \<noteq> Int64"
  "Kind_other x \<noteq> Uint" "Kind_other x \<noteq> Uint8" "Kind_other x \<noteq> Uint16"
  "Kind_other x \<noteq> Uint32" "Kind_other x \<noteq> Uint64"
  "Kind_other x \<noteq> Float32" "Kind_other x \<noteq> Float64"
  by (cases x; simp)+

lemma Kind_of_Bool: "Kind_of k = Bool \<Longrightarrow> \<exists>b. Bool_of k = Inr b"
  by (cases k) (auto simp: Kind_other_unsorted split: bits.splits fbits.splits)

lemma Kind_of_Int:
  "Kind_of k \<in> {IntK, Int8, Int16, Int32, Int64} \<Longrightarrow> \<exists>n. Int_of k = Inr n"
  by (cases k) (auto simp: Kind_other_unsorted split: bits.splits fbits.splits)

lemma Kind_of_Uint:
  "Kind_of k \<in> {Uint, Uint8, Uint16, Uint32, Uint64} \<Longrightarrow> \<exists>n. Uint_of k = Inr n"
  by (cases k) (auto simp: Kind_other_unsorted split: bits.splits fbits.splits)

lemma Kind_of_Float: "Kind_of k \<in> {Float32, Float64} \<Longrightarrow> \<exists>x. Float_of k = Inr x"
  by (cases k) (auto simp: Kind_other_unsorted split: bits.splits fbits.splits)

lemma Type_of_time: "Type_of k = t_time \<Longrightarrow> \<exists>t. Time_of k = Inr t"
  by (cases k) (auto simp: t_time_def)

lemma homogeneous_readable:
  assumes "\<forall>e \<in> set xs. \<exists>k. walk names e = Inr k \<and> Type_of k = ty \<and> Kind_of k = kd"
    and "\<And>k. Type_of k = ty \<Longrightarrow> Kind_of k = kd \<Longrightarrow> \<exists>a. acc k = Inr a"
  shows "readable acc names xs"
  unfolding readable_def
proof
  fix e assume "e \<in> set xs"
  then obtain k where k: "walk names e = Inr k" "Type_of k = ty" "Kind_of k = kd"
    using assms(1) by blast
  then obtain a where "acc k = Inr a" using assms(2) by blast
  then show "\<exists>a. bnd (walk names e) acc = Inr a" using k(1) by (simp add: bnd_def)
qed

lemma by_value_family:
  assumes "compares \<lparr>Len = Sorter_Len, Less = cmp, Swap = Sorter_Swap\<rparr>
      (by_value acc names) V (key_by acc names) lt"
    and "\<And>a b. lt a b \<Longrightarrow> \<not> lt b a"
    and "keys_in_slots names s"
    and "readable acc names (V s)"
  shows "\<exists>s'. sort_Sort \<lparr>Len = Sorter_Len, Less = cmp, Swap = Sorter_Swap\<rparr> s = Returned s'
      \<and> keys_in_slots names s' \<and> mset (V s') = mset (V s)
      \<and> valKind s' = valKind s \<and> valType s' = valType s \<and> Ordering s' = Ordering s
      \<and> (\<forall>i. 0 \<le> i \<and> i + 1 < Sorter_Len s' \<longrightarrow> cmp s' (i + 1) i = Inr False)"
proof -
  have "by_value acc names s" using assms(3,4) by (simp add: by_value_def)
  from sorts_with [OF assms(1) assms(2) this] show ?thesis
    by (auto simp: by_value_def)
qed

lemma Sort_switch_by_value:
  assumes sel: "Sorter_Less H s = Some cmp"
    and slots: "keys_in_slots names s"
    and hom: "\<forall>e \<in> set (V s). \<exists>k. walk names e = Inr k \<and> Type_of k = valType s
                \<and> Kind_of k = valKind s"
  shows "\<exists>s'. Sort_switch H s = Returned s'
      \<and> keys_in_slots names s' \<and> mset (V s') = mset (V s)
      \<and> valKind s' = valKind s \<and> valType s' = valType s \<and> Ordering s' = Ordering s
      \<and> (\<forall>i. 0 \<le> i \<and> i + 1 < Sorter_Len s' \<longrightarrow> cmp s' (i + 1) i = Inr False)"
proof -
  have run: "Sort_switch H s = sort_Sort \<lparr>Len = Sorter_Len, Less = cmp, Swap = Sorter_Swap\<rparr> s"
    using sel by (rule Sorter_Less_Some)
  have r_str: "readable (\<lambda>v. Inr (String_of v)) names (V s)"
    using hom by (rule homogeneous_readable) simp
  have r_low: "readable (\<lambda>v. Inr (ToLower (String_of v))) names (V s)"
    using hom by (rule homogeneous_readable) simp
  have r_bool: "valKind s = Bool \<Longrightarrow> readable Bool_of names (V s)"
    using hom by (rule homogeneous_readable) (simp add: Kind_of_Bool)
  have r_int: "valKind s \<in> {IntK, Int8, Int16, Int32, Int64} \<Longrightarrow> readable Int_of names (V s)"
    using hom by (rule homogeneous_readable) (simp add: Kind_of_Int)
  have r_uint: "valKind s \<in> {Uint, Uint8, Uint16, Uint32, Uint64}
      \<Longrightarrow> readable Uint_of names (V s)"
    using hom by (rule homogeneous_readable) (simp add: Kind_of_Uint)
  have r_float: "valKind s \<in> {Float32, Float64} \<Longrightarrow> readable Float_of names (V s)"
    using hom by (rule homogeneous_readable) (simp add: Kind_of_Float)
  have r_time: "valType s = t_time \<Longrightarrow> readable Time_of names (V s)"
    using hom by (rule homogeneous_readable) (simp add: Type_of_time)
  let ?goal = "\<lambda>cmp. \<exists>s'. sort_Sort \<lparr>Len = Sorter_Len, Less = cmp, Swap = Sorter_Swap\<rparr> s = Returned s'
      \<and> keys_in_slots names s' \<and> mset (V s') = mset (V s)
      \<and> valKind s' = valKind s \<and> valType s' = valType s \<and> Ordering s' = Ordering s
      \<and> (\<forall>i. 0 \<le> i \<and> i + 1 < Sorter_Len s' \<longrightarrow> cmp s' (i + 1) i = Inr False)"
  have c1: "?goal (stringAscending_Less H)"
    by (rule by_value_family [OF stringAscending_compares [unfolded stringAscending_def]
          str_lt_asym slots r_str])
  have c2: "?goal (stringDescending_Less H)"
    by (rule by_value_family [OF stringDescending_compares [unfolded stringDescending_def]
          str_lt_asym slots r_str])
  have c3: "?goal (stringInsensitiveAscending_Less H)"
    by (rule by_value_family [OF stringInsensitiveAscending_compares
          [unfolded stringInsensitiveAscending_def] str_lt_asym slots r_low])
  have c4: "?goal (stringInsensitiveDescending_Less H)"
    by (rule by_value_family [OF stringInsensitiveDescending_compares
          [unfolded stringInsensitiveDescending_def] str_lt_asym slots r_low])
  have c5: "?goal (boolAscending_Less H)" if "valKind s = Bool"
    by (rule by_value_family [OF boolAscending_compares [unfolded boolAscending_def]
          _ slots r_bool [OF that]]) simp
  have c6: "?goal (boolDescending_Less H)" if "valKind s = Bool"
    by (rule by_value_family [OF boolDescending_compares [unfolded boolDescending_def]
          _ slots r_bool [OF that]]) simp
  have c7: "?goal (intAscending_Less H)" if "valKind s \<in> {IntK, Int8, Int16, Int32, Int64}"
    by (rule by_value_family [OF intAscending_compares [unfolded intAscending_def]
          _ slots r_int [OF that]]) simp
  have c8: "?goal (intDescending_Less H)" if "valKind s \<in> {IntK, Int8, Int16, Int32, Int64}"
    by (rule by_value_family [OF intDescending_compares [unfolded intDescending_def]
          _ slots r_int [OF that]]) simp
  have c9: "?goal (uintAscending_Less H)" if "valKind s \<in> {Uint, Uint8, Uint16, Uint32, Uint64}"
    by (rule by_value_family [OF uintAscending_compares [unfolded uintAscending_def]
          _ slots r_uint [OF that]]) simp
  have c10: "?goal (uintDescending_Less H)"
    if "valKind s \<in> {Uint, Uint8, Uint16, Uint32, Uint64}"
    by (rule by_value_family [OF uintDescending_compares [unfolded uintDescending_def]
          _ slots r_uint [OF that]]) simp
  have c11: "?goal (floatAscending_Less H)" if "valKind s \<in> {Float32, Float64}"
    by (rule by_value_family [OF floatAscending_compares [unfolded floatAscending_def]
          float_asc_asym slots r_float [OF that]])
  have c12: "?goal (floatDescending_Less H)" if "valKind s \<in> {Float32, Float64}"
    by (rule by_value_family [OF floatDescending_compares [unfolded floatDescending_def]
          float_desc_asym slots r_float [OF that]])
  have c13: "?goal (timeAscending_Less H)" if "valType s = t_time"
    by (rule by_value_family [OF timeAscending_compares [unfolded timeAscending_def]
          _ slots r_time [OF that]]) simp
  have c14: "?goal (timeDescending_Less H)" if "valType s = t_time"
    by (rule by_value_family [OF timeDescending_compares [unfolded timeDescending_def]
          _ slots r_time [OF that]]) simp
  from Sorter_Less_cases [OF sel] have "?goal cmp"
    apply (elim disjE conjE)
    subgoal using c1 by simp
    subgoal using c2 by simp
    subgoal using c3 by simp
    subgoal using c4 by simp
    subgoal using c5 by simp
    subgoal using c6 by simp
    subgoal using c7 by simp
    subgoal using c8 by simp
    subgoal using c9 by simp
    subgoal using c10 by simp
    subgoal using c11 by simp
    subgoal using c12 by simp
    subgoal using c13 by simp
    subgoal using c14 by simp
    done
  then show ?thesis using run by simp
qed


lemma SimpleGetter_slots:
  "SimpleGetter H x = Inr (map (\<lambda>i. Value (Slot i) []) [0..<length x])"
  by (simp add: SimpleGetter_def)

lemma collect_map_Inr:
  "(\<And>a. a \<in> set as \<Longrightarrow> f a = Inr (g a)) \<Longrightarrow> collect (map f as) = Inr (map g as)"
  by (induction as) (simp_all add: bnd_def)

lemma Indirect_value: "(\<forall>a. e \<noteq> VPtr a) \<Longrightarrow> Indirect i e = Slot i"
  by (cases e) simp_all

lemma load_slot: "i < length x \<Longrightarrow> load H x (Value (Slot i) names) = walk names (x ! i)"
  by (simp add: fetch_def bnd_def)

lemma FieldGetter_slots:
  assumes "\<forall>e \<in> set x. (\<forall>a. e \<noteq> VPtr a) \<and> (\<exists>k. walk [name] e = Inr k)"
  shows "FieldGetter name H x = Inr (map (\<lambda>i. Value (Slot i) [name]) [0..<length x])"
  unfolding FieldGetter_def
proof (rule collect_map_Inr)
  fix i assume "i \<in> set [0..<length x]"
  then have i: "i < length x" by simp
  then have mem: "x ! i \<in> set x" by simp
  have ind: "Indirect i (x ! i) = Slot i"
    using assms mem by (intro Indirect_value) blast
  obtain k where k: "walk [name] (x ! i) = Inr k"
    using assms mem by blast
  have "load H x (Value (Slot i) [name]) = Inr k"
    using load_slot [OF i, of H "[name]"] k by simp
  then show "bnd (load H x (Value (Indirect i (x ! i)) [name]))
        (\<lambda>k. Inr (Value (Indirect i (x ! i)) [name])) = Inr (Value (Slot i) [name])"
    unfolding ind by (simp add: bnd_def)
qed

lemma Type_of_OtherType: "Type_of v = OtherType k \<Longrightarrow> Kind_of v = k"
  by (cases v) simp_all

lemma Type_of_TimeType: "Type_of v = TimeType \<Longrightarrow> Kind_of v = Struct"
  by (cases v) simp_all

lemma Type_of_Kind_of: "Type_of a = Type_of b \<Longrightarrow> Kind_of a = Kind_of b"
  by (cases "Type_of b") (simp_all add: Type_of_OtherType Type_of_TimeType)


lemma Sorter_Sort_by_value:
  assumes new: "New x g ord = Inr s"
    and getter: "(g = None \<or> g = Some SimpleGetter) \<and> names = []
                 \<or> (\<exists>name. g = Some (FieldGetter name) \<and> names = [name])"
    and byval: "\<forall>e \<in> set x. \<forall>a. e \<noteq> VPtr a"
    and first: "walk names (x ! 0) = Inr k0"
    and keys: "\<forall>e \<in> set x. \<exists>k. walk names e = Inr k"
  shows "\<exists>s3. Sorter_Sort H s = Sort_switch H s3 \<and> keys_in_slots names s3 \<and> V s3 = x
      \<and> valKind s3 = Kind_of k0 \<and> valType s3 = Type_of k0 \<and> Ordering s3 = ord"
proof -
  have s: "x \<noteq> []" "V s = x" "G s = g" "Ordering s = ord"
    using new by (auto simp: New_def split: if_splits)
  let ?g = "case G s of None \<Rightarrow> SimpleGetter | Some g' \<Rightarrow> g'"
  let ?ks = "map (\<lambda>i. Value (Slot i) names) [0..<length x]"
  have ks: "?g H (V s) = Inr ?ks"
  proof -
    from getter show ?thesis
    proof
      assume "(g = None \<or> g = Some SimpleGetter) \<and> names = []"
      then show ?thesis using s by (auto simp: SimpleGetter_slots)
    next
      assume "\<exists>name. g = Some (FieldGetter name) \<and> names = [name]"
      then obtain name where g: "g = Some (FieldGetter name)" "names = [name]" by blast
      have "\<forall>e \<in> set x. (\<forall>a. e \<noteq> VPtr a) \<and> (\<exists>k. walk [name] e = Inr k)"
        using byval keys g(2) by blast
      from FieldGetter_slots [OF this, of H] show ?thesis using s g by simp
    qed
  qed
  obtain hs where hd: "?ks = Value (Slot 0) names # hs"
    using s(1) by (simp add: upt_conv_Cons)
  have one: "load H (V s) (Value (Slot 0) names) = Inr k0"
    using s first by (simp add: fetch_def bnd_def)
  let ?s3 = "s\<lparr>G := Some ?g, vals := Value (Slot 0) names # hs,
      valType := Type_of k0, valKind := Kind_of k0\<rparr>"
  have run: "Sorter_Sort H s = Sort_switch H ?s3"
    using ks hd one by (intro Sorter_Sort_first_key) simp_all
  have slots: "keys_in_slots names ?s3"
    using hd s by (simp add: keys_in_slots_def)
  show ?thesis
    using run slots s by (intro exI [of _ ?s3]) simp
qed

text \<open>
  Where claim C1 holds. A non-empty collection whose elements are held by value, sorted by
  the elements themselves or by a named field, with keys of one supported type and an
  ordering valid for it: \<^verbatim>\<open>Sort\<close> returns, the collection is a permutation of what it was,
  and the selected \<^verbatim>\<open>Less\<close> is false on every pair \<open>(i + 1, i)\<close>.
\<close>

theorem Sort_sorts_collections_held_by_value:
  assumes new: "New x g ord = Inr s"
    and getter: "(g = None \<or> g = Some SimpleGetter) \<and> names = []
                 \<or> (\<exists>name. g = Some (FieldGetter name) \<and> names = [name])"
    and byval: "\<forall>e \<in> set x. \<forall>a. e \<noteq> VPtr a"
    and first: "walk names (x ! 0) = Inr k0"
    and homog: "\<forall>e \<in> set x. \<exists>k. walk names e = Inr k \<and> Type_of k = Type_of k0"
    and valid: "Less_for H (Kind_of k0) (Type_of k0) ord = Some cmp"
  shows "\<exists>s'. Sorter_Sort H s = Returned s' \<and> mset (V s') = mset x
      \<and> Sorter_Less H s' = Some cmp \<and> keys_in_slots names s'
      \<and> (\<forall>i. 0 \<le> i \<and> i + 1 < Sorter_Len s' \<longrightarrow> cmp s' (i + 1) i = Inr False)"
proof -
  have keys: "\<forall>e \<in> set x. \<exists>k. walk names e = Inr k" using homog by blast
  from Sorter_Sort_by_value [OF new getter byval first keys, of H]
  obtain s3 where s3: "Sorter_Sort H s = Sort_switch H s3" "keys_in_slots names s3" "V s3 = x"
      "valKind s3 = Kind_of k0" "valType s3 = Type_of k0" "Ordering s3 = ord"
    by blast
  have sel: "Sorter_Less H s3 = Some cmp"
    using valid s3(4,5,6) by (simp add: Sorter_Less_def)
  have hom: "\<forall>e \<in> set (V s3). \<exists>k. walk names e = Inr k \<and> Type_of k = valType s3
                \<and> Kind_of k = valKind s3"
  proof
    fix e assume "e \<in> set (V s3)"
    then have "e \<in> set x" using s3(3) by simp
    then obtain k where k: "walk names e = Inr k" "Type_of k = Type_of k0"
      using homog by blast
    then have "Kind_of k = Kind_of k0" by (intro Type_of_Kind_of)
    then show "\<exists>k. walk names e = Inr k \<and> Type_of k = valType s3 \<and> Kind_of k = valKind s3"
      using k s3(4,5) by simp
  qed
  from Sort_switch_by_value [OF sel s3(2) hom]
  obtain s' where s': "Sort_switch H s3 = Returned s'" "keys_in_slots names s'"
      "mset (V s') = mset (V s3)"
      "valKind s' = valKind s3" "valType s' = valType s3" "Ordering s' = Ordering s3"
      "\<forall>i. 0 \<le> i \<and> i + 1 < Sorter_Len s' \<longrightarrow> cmp s' (i + 1) i = Inr False"
    by blast
  have "Sorter_Less H s' = Some cmp"
    using sel s'(4,5,6) by (simp add: Sorter_Less_def)
  then show ?thesis using s3(1,3) s'(1,2,3,7) by simp
qed

lemma key_in_slot_int:
  assumes "keys_in_slots names t" and "0 \<le> p" and "p < int (length (V t))"
  shows "key H t p = walk names (V t ! nat p)"
proof -
  have "nat p < length (V t)" "p = int (nat p)" using assms(2,3) by simp_all
  then show ?thesis using key_in_slot [OF assms(1), of "nat p" H] by simp
qed

text \<open>
  Where claim C2 holds. With the keys held in the slots, \<^verbatim>\<open>Swap(i, j)\<close> within range
  exchanges the elements at \<open>i\<close> and \<open>j\<close> and, with them, the keys read at \<open>i\<close> and \<open>j\<close>;
  afterwards every key \<open>p\<close> is still the key of the element at \<open>p\<close>.
\<close>

theorem Swap_keeps_keys_aligned_by_value:
  assumes "keys_in_slots names s"
    and "0 \<le> i" and "i < int (length (V s))" and "0 \<le> j" and "j < int (length (V s))"
  shows "\<exists>s'. Sorter_Swap s i j = Inr s' \<and> keys_in_slots names s'
      \<and> V s' ! nat i = V s ! nat j \<and> V s' ! nat j = V s ! nat i
      \<and> key H s' i = key H s j \<and> key H s' j = key H s i
      \<and> (\<forall>p. 0 \<le> p \<and> p < int (length (V s')) \<longrightarrow> key H s' p = walk names (V s' ! nat p))"
proof -
  let ?i = "nat i" and ?j = "nat j"
  have r: "?i < length (V s)" "?j < length (V s)" "i = int ?i" "j = int ?j"
    using assms by simp_all
  let ?s' = "s\<lparr>V := (V s)[?i := V s ! ?j, ?j := V s ! ?i]\<rparr>"
  have sw: "Sorter_Swap s i j = Inr ?s'"
    using Sorter_Swap_in_range [OF r(1,2)] r(3,4) by simp
  have slots': "keys_in_slots names ?s'"
    using assms(1) by (simp add: keys_in_slots_def)
  note aligned = key_in_slot_int [where H = H]
  have "V ?s' ! ?i = V s ! ?j" "V ?s' ! ?j = V s ! ?i"
    using r(1,2) by (simp_all add: nth_list_update)
  moreover have "key H ?s' i = walk names (V ?s' ! ?i)" "key H ?s' j = walk names (V ?s' ! ?j)"
    "key H s i = walk names (V s ! ?i)" "key H s j = walk names (V s ! ?j)"
    using aligned [OF slots'] aligned [OF assms(1)] assms(2-5) by simp_all
  ultimately show ?thesis
    using sw slots' aligned [OF slots'] by (intro exI [of _ ?s']) simp
qed


subsection \<open>Ascending then Reverse, against Descending\<close>

lemma sorted_by_key_unique:
  assumes irrefl: "\<And>a. \<not> lt a a"
    and trans: "\<And>a b c. lt a b \<Longrightarrow> lt b c \<Longrightarrow> lt a c"
  shows "sorted_wrt (\<lambda>a b. lt (keyf a) (keyf b)) ys \<Longrightarrow>
         sorted_wrt (\<lambda>a b. lt (keyf a) (keyf b)) zs \<Longrightarrow> mset ys = mset zs \<Longrightarrow> ys = zs"
proof (induction ys arbitrary: zs)
  case Nil
  then show ?case by simp
next
  case (Cons y ys)
  then obtain z zs' where zs: "zs = z # zs'" by (cases zs) auto
  have yz: "y = z"
  proof (rule ccontr)
    assume ne: "y \<noteq> z"
    have "y \<in> set zs" using Cons.prems(3) by (metis list.set_intros(1) mset_eq_setD)
    then have "y \<in> set zs'" using ne zs by simp
    then have 1: "lt (keyf z) (keyf y)" using Cons.prems(2) zs by simp
    have "z \<in> set (y # ys)" using Cons.prems(3) zs by (metis list.set_intros(1) mset_eq_setD)
    then have "z \<in> set ys" using ne by simp
    then have 2: "lt (keyf y) (keyf z)" using Cons.prems(1) by simp
    show False using irrefl trans [OF 1 2] by blast
  qed
  have "mset ys = mset zs'" using Cons.prems(3) zs yz by simp
  moreover have "sorted_wrt (\<lambda>a b. lt (keyf a) (keyf b)) ys"
    "sorted_wrt (\<lambda>a b. lt (keyf a) (keyf b)) zs'"
    using Cons.prems(1,2) zs by simp_all
  ultimately have "ys = zs'" using Cons.IH by blast
  then show ?case using zs yz by simp
qed

lemma adjacent_sorted_wrt:
  assumes trans: "\<And>a b c. P a b \<Longrightarrow> P b c \<Longrightarrow> P a c"
    and adj: "\<forall>k. 0 < k \<and> k < length xs \<longrightarrow> P (xs ! (k - 1)) (xs ! k)"
  shows "sorted_wrt P xs"
  using adj
proof (induction xs)
  case Nil
  then show ?case by simp
next
  case (Cons x xs)
  have adj': "\<forall>k. 0 < k \<and> k < length xs \<longrightarrow> P (xs ! (k - 1)) (xs ! k)"
  proof (intro allI impI)
    fix k assume k: "0 < k \<and> k < length xs"
    then have "P ((x # xs) ! (Suc k - 1)) ((x # xs) ! Suc k)"
      using Cons.prems by (metis Suc_less_eq length_Cons zero_less_Suc)
    then show "P (xs ! (k - 1)) (xs ! k)" using k by (cases k) simp_all
  qed
  then have sorted: "sorted_wrt P xs" using Cons.IH by simp
  have "\<forall>y \<in> set xs. P x y"
  proof (cases xs)
    case Nil
    then show ?thesis by simp
  next
    case (Cons y ys)
    have xy: "P x y" using Cons.prems Cons by (metis One_nat_def diff_Suc_1 length_Cons
          nth_Cons_0 nth_Cons_Suc zero_less_Suc Suc_less_eq)
    have "\<forall>z \<in> set ys. P y z" using sorted Cons by simp
    then show ?thesis using xy trans Cons by auto
  qed
  then show ?case using sorted by simp
qed


lemma Reverse_exposed:
  assumes ex: "exchanges d ok content" and ok: "ok st"
  shows "\<exists>st'. Reverse d st = Returned st' \<and> ok st' \<and> content st' = rev (content st)"
proof -
  let ?n = "length (content st)"
  have len: "Len d st = int ?n" using exchanges_Len [OF ex ok] .
  show ?thesis
  proof (cases "?n = 0")
    case True
    have "Reverse_loop d 0 (- 1) st = Returned st" by (subst Reverse_loop.simps) simp
    then show ?thesis using True len ok by (simp add: Reverse_def)
  next
    case False
    then obtain m where m: "?n = Suc m" by (cases ?n) auto
    from Reverse_loop_counting [OF ex ok, of 0 m 0] m
    obtain st' where run: "Reverse_loop (counting d) (int 0) (int m) (st, 0)
            = Returned (st', 0 + (Suc m - 0) div 2)"
      and ok': "ok st'"
      and len': "length (content st') = ?n"
      and nth': "\<forall>k < ?n. content st' ! k =
              (if 0 \<le> k \<and> k \<le> m then content st ! (0 + m - k) else content st ! k)"
      by auto
    have plain: "Reverse_loop d 0 (int m) st = Returned st'"
      using Reverse_loop_uncounted [OF run] by simp
    have "content st' = rev (content st)"
    proof (rule nth_equalityI)
      show "length (content st') = length (rev (content st))" using len' by simp
    next
      fix i assume "i < length (content st')"
      then have i: "i < ?n" using len' by simp
      then have "content st' ! i = content st ! (m - i)" using nth' m by simp
      also have "\<dots> = rev (content st) ! i" using i m by (simp add: rev_nth)
      finally show "content st' ! i = rev (content st) ! i" .
    qed
    moreover have "int ?n - 1 = int m" using m by simp
    ultimately show ?thesis using plain ok' len by (simp add: Reverse_def)
  qed
qed

lemma round_trip:
  assumes exA: "exchanges dA ok content" and cmpA: "compares dA ok content keyf lt"
    and exD: "exchanges dD ok content" and cmpD: "compares dD ok content keyf (\<lambda>a b. lt b a)"
    and irrefl: "\<And>a. \<not> lt a a"
    and trans: "\<And>a b c. lt a b \<Longrightarrow> lt b c \<Longrightarrow> lt a c"
    and total: "\<And>a b. a \<noteq> b \<Longrightarrow> lt a b \<or> lt b a"
    and okA: "ok stA" and okD: "ok stD"
    and same: "content stD = content stA"
    and dist: "distinct (map keyf (content stA))"
  shows "\<exists>sa sd. sort_Sort dA stA = Returned sa \<and> ok sa \<and> sort_Sort dD stD = Returned sd
      \<and> ok sd \<and> content sd = rev (content sa)"
proof -
  let ?P = "\<lambda>a b. lt (keyf a) (keyf b)"
  have asym: "\<And>a b. lt a b \<Longrightarrow> \<not> lt b a" using irrefl trans by blast
  have asym': "\<And>a b. (\<lambda>a b. lt b a) a b \<Longrightarrow> \<not> (\<lambda>a b. lt b a) b a" using asym by blast
  have transP: "\<And>a b c. ?P a b \<Longrightarrow> ?P b c \<Longrightarrow> ?P a c" using trans by blast
  from sort_Sort_sorts [OF exA cmpA asym okA]
  obtain sa where sa: "sort_Sort dA stA = Returned sa" "ok sa"
      "mset (content sa) = mset (content stA)"
      "\<forall>k. 0 < k \<and> k < length (content sa) \<longrightarrow>
          \<not> lt (keyf (content sa ! k)) (keyf (content sa ! (k - 1)))"
    by blast
  from sort_Sort_sorts [OF exD cmpD asym' okD]
  obtain sd where sd0: "sort_Sort dD stD = Returned sd" "ok sd"
      "mset (content sd) = mset (content stD)"
      "\<forall>k. 0 < k \<and> k < length (content sd) \<longrightarrow>
          \<not> lt (keyf (content sd ! (k - 1))) (keyf (content sd ! k))"
    by blast
  have sd: "sort_Sort dD stD = Returned sd" "ok sd"
      "mset (content sd) = mset (content stA)"
      "\<forall>k. 0 < k \<and> k < length (content sd) \<longrightarrow>
          \<not> lt (keyf (content sd ! (k - 1))) (keyf (content sd ! k))"
    using sd0 same by simp_all
  have distinct_after: "distinct (map keyf ys)" if "mset ys = mset (content stA)" for ys
  proof -
    have "mset (map keyf ys) = mset (map keyf (content stA))" using that by simp
    then show ?thesis using dist by (metis mset_eq_imp_distinct_iff)
  qed
  have neq: "keyf (ys ! (k - 1)) \<noteq> keyf (ys ! k)"
    if "distinct (map keyf ys)" "0 < k" "k < length ys" for ys k
  proof -
    have "k - 1 < length (map keyf ys)" "k < length (map keyf ys)" "k - 1 \<noteq> k"
      using that by simp_all
    then have "map keyf ys ! (k - 1) \<noteq> map keyf ys ! k"
      using that(1) nth_eq_iff_index_eq by blast
    then show ?thesis using that by simp
  qed
  have "\<forall>k. 0 < k \<and> k < length (content sa) \<longrightarrow> ?P (content sa ! (k - 1)) (content sa ! k)"
    using sa(4) neq [OF distinct_after [OF sa(3)]] total by blast
  then have sortedA: "sorted_wrt ?P (content sa)"
    using adjacent_sorted_wrt [of ?P "content sa"] transP by blast
  have transQ: "\<And>a b c. ?P b a \<Longrightarrow> ?P c b \<Longrightarrow> ?P c a" using trans by blast
  have "\<forall>k. 0 < k \<and> k < length (content sd) \<longrightarrow> ?P (content sd ! k) (content sd ! (k - 1))"
    using sd(4) neq [OF distinct_after [OF sd(3)]] total by metis
  then have "sorted_wrt (\<lambda>a b. ?P b a) (content sd)"
    using adjacent_sorted_wrt [of "\<lambda>a b. ?P b a" "content sd"] transQ by blast
  then have sortedD: "sorted_wrt ?P (rev (content sd))"
    by (simp add: sorted_wrt_rev)
  have same': "mset (rev (content sd)) = mset (content sa)" using sa(3) sd(3) by simp
  have "rev (content sd) = content sa"
  proof (rule sorted_by_key_unique [of lt keyf])
    show "\<not> lt a a" for a by (rule irrefl)
    show "lt a c" if "lt a b" "lt b c" for a b c using that by (rule trans)
    show "sorted_wrt ?P (rev (content sd))" by (rule sortedD)
    show "sorted_wrt ?P (content sa)" by (rule sortedA)
    show "mset (rev (content sd)) = mset (content sa)" by (rule same')
  qed
  then have "content sd = rev (content sa)" by (metis rev_rev_ident)
  then show ?thesis using sa sd by blast
qed

lemma Sort_switch_ints:
  assumes "valKind s \<in> {IntK, Int8, Int16, Int32, Int64}"
  shows "Ordering s = Ascending \<Longrightarrow> Sort_switch H s = sort_Sort (intAscending H) s"
    and "Ordering s = Descending \<Longrightarrow> Sort_switch H s = sort_Sort (intDescending H) s"
  using assms by (auto simp: Sort_switch_def Sort_ints_def Ordering_defs)

lemma Sort_Returned:
  "New x g ord = Inr s \<Longrightarrow> Sorter_Sort H s = Returned s' \<Longrightarrow> Sort H x g ord = Returned (V s')"
  by (simp add: Sort_def)

text \<open>
  Where claim C7 holds. For a non-empty collection held by value whose keys are integers
  of one type, no two of them equal, sorting it ascending and reversing the slice leaves it
  as sorting it descending does.
\<close>

theorem Ascending_then_Reverse_is_Descending_by_value:
  assumes nonempty: "x \<noteq> []"
    and getter: "(g = None \<or> g = Some SimpleGetter) \<and> names = []
                 \<or> (\<exists>name. g = Some (FieldGetter name) \<and> names = [name])"
    and byval: "\<forall>e \<in> set x. \<forall>a. e \<noteq> VPtr a"
    and first: "walk names (x ! 0) = Inr k0"
    and ints: "Kind_of k0 \<in> {IntK, Int8, Int16, Int32, Int64}"
    and homog: "\<forall>e \<in> set x. \<exists>k. walk names e = Inr k \<and> Type_of k = Type_of k0"
    and dist: "distinct (map (key_by Int_of names) x)"
  shows "\<exists>xa. Sort H x g Ascending = Returned xa
      \<and> Reverse SortableItems xa = Returned (rev xa)
      \<and> Sort H x g Descending = Returned (rev xa)"
proof -
  obtain sA where newA: "New x g Ascending = Inr sA" using nonempty by (simp add: New_def)
  obtain sD where newD: "New x g Descending = Inr sD" using nonempty by (simp add: New_def)
  have keys: "\<forall>e \<in> set x. \<exists>k. walk names e = Inr k" using homog by blast
  from Sorter_Sort_by_value [OF newA getter byval first keys, of H]
  obtain a3 where a3: "Sorter_Sort H sA = Sort_switch H a3" "keys_in_slots names a3" "V a3 = x"
      "valKind a3 = Kind_of k0" "Ordering a3 = Ascending"
    by blast
  from Sorter_Sort_by_value [OF newD getter byval first keys, of H]
  obtain d3 where d3: "Sorter_Sort H sD = Sort_switch H d3" "keys_in_slots names d3" "V d3 = x"
      "valKind d3 = Kind_of k0" "Ordering d3 = Descending"
    by blast
  have runA: "Sorter_Sort H sA = sort_Sort (intAscending H) a3"
    using a3 ints Sort_switch_ints(1) [of a3 H] by simp
  have runD: "Sorter_Sort H sD = sort_Sort (intDescending H) d3"
    using d3 ints Sort_switch_ints(2) [of d3 H] by simp
  have "\<forall>e \<in> set x. \<exists>k. walk names e = Inr k \<and> Type_of k = Type_of k0
      \<and> Kind_of k = Kind_of k0"
  proof
    fix e assume "e \<in> set x"
    then obtain k where k: "walk names e = Inr k" "Type_of k = Type_of k0"
      using homog by blast
    then have "Kind_of k = Kind_of k0" by (intro Type_of_Kind_of)
    then show "\<exists>k. walk names e = Inr k \<and> Type_of k = Type_of k0 \<and> Kind_of k = Kind_of k0"
      using k by simp
  qed
  then have readable: "readable Int_of names x"
    by (rule homogeneous_readable) (use ints Kind_of_Int in simp)
  have okA: "by_value Int_of names a3" and okD: "by_value Int_of names d3"
    using a3 d3 readable by (simp_all add: by_value_def)
  have exA: "exchanges (intAscending H) (by_value Int_of names) V"
    by (rule by_value_exchanges) (simp_all add: intAscending_def)
  have exD: "exchanges (intDescending H) (by_value Int_of names) V"
    by (rule by_value_exchanges) (simp_all add: intDescending_def)
  have same: "V d3 = V a3" using a3 d3 by simp
  have dist': "distinct (map (key_by Int_of names) (V a3))" using dist a3 by simp
  obtain sa sd where r: "sort_Sort (intAscending H) a3 = Returned sa"
      "sort_Sort (intDescending H) d3 = Returned sd" "V sd = rev (V sa)"
    using round_trip [OF exA intAscending_compares exD intDescending_compares _ _ _
        okA okD same dist']
    by force
  have "exchanges SortableItems (\<lambda>xs. True) (\<lambda>xs. xs)"
    by (rule slice_exchanges) (simp_all add: SortableItems_def)
  from Reverse_exposed [OF this, of "V sa"]
  have rev: "Reverse SortableItems (V sa) = Returned (rev (V sa))" by simp
  have "Sort H x g Ascending = Returned (V sa)"
    using Sort_Returned [OF newA] runA r(1) by simp
  moreover have "Sort H x g Descending = Returned (rev (V sa))"
    using Sort_Returned [OF newD] runD r(2,3) by simp
  ultimately show ?thesis using rev by blast
qed


subsection \<open>The three theorems on a slice of items held by value\<close>

lemma three_items_keys:
  "\<forall>e \<in> set three_items. \<forall>a. e \<noteq> VPtr a"
  "walk [''Id''] (three_items ! 0) = Inr (VInt B64 2)"
  "\<forall>e \<in> set three_items. \<exists>k. walk [''Id''] e = Inr k \<and> Type_of k = Type_of (VInt B64 2)"
  by (simp_all add: three_items_def item_def bnd_def)

theorem Sort_sorts_collections_held_by_value_witness:
  "\<exists>s'. Sorter_Sort Map.empty
          \<lparr>T = OtherType Struct, V = three_items, G = Some (FieldGetter ''Id''),
           Ordering = Ascending, vals = [], valKind = Invalid, valType = OtherType Invalid\<rparr>
          = Returned s'
      \<and> mset (V s') = mset three_items
      \<and> Sorter_Less Map.empty s' = Some (intAscending_Less Map.empty)
      \<and> keys_in_slots [''Id''] s'
      \<and> (\<forall>i. 0 \<le> i \<and> i + 1 < Sorter_Len s' \<longrightarrow> intAscending_Less Map.empty s' (i + 1) i = Inr False)"
proof -
  have new: "New three_items (Some (FieldGetter ''Id'')) Ascending
      = Inr \<lparr>T = OtherType Struct, V = three_items, G = Some (FieldGetter ''Id''),
           Ordering = Ascending, vals = [], valKind = Invalid, valType = OtherType Invalid\<rparr>"
    by (simp add: New_def three_items_def item_def)
  have getter: "(Some (FieldGetter ''Id'') = None \<or> Some (FieldGetter ''Id'') = Some SimpleGetter)
        \<and> [''Id''] = []
      \<or> (\<exists>name. Some (FieldGetter ''Id'') = Some (FieldGetter name) \<and> [''Id''] = [name])"
    by blast
  have valid: "Less_for Map.empty (Kind_of (VInt B64 2)) (Type_of (VInt B64 2)) Ascending
      = Some (intAscending_Less Map.empty)"
    by (simp add: Less_for_def Less_by_ordering_def)
  show ?thesis
    by (rule Sort_sorts_collections_held_by_value
          [OF new getter three_items_keys(1) three_items_keys(2) three_items_keys(3) valid])
qed

theorem Swap_keeps_keys_aligned_by_value_witness:
  "\<exists>s'. Sorter_Swap items_sorter 1 2 = Inr s' \<and> keys_in_slots [''Id''] s'
      \<and> V s' ! nat 1 = V items_sorter ! nat 2 \<and> V s' ! nat 2 = V items_sorter ! nat 1
      \<and> key Map.empty s' 1 = key Map.empty items_sorter 2
      \<and> key Map.empty s' 2 = key Map.empty items_sorter 1
      \<and> (\<forall>p. 0 \<le> p \<and> p < int (length (V s')) \<longrightarrow>
            key Map.empty s' p = walk [''Id''] (V s' ! nat p))"
proof -
  have slots: "keys_in_slots [''Id''] items_sorter"
    by (simp add: keys_in_slots_def items_sorter_def three_items_def upt_rec)
  have r: "(0::int) \<le> 1" "1 < int (length (V items_sorter))" "(0::int) \<le> 2"
    "2 < int (length (V items_sorter))"
    by (simp_all add: items_sorter_def three_items_def)
  show ?thesis
    by (rule Swap_keeps_keys_aligned_by_value [OF slots r])
qed

theorem Ascending_then_Reverse_is_Descending_by_value_witness:
  "\<exists>xa. Sort Map.empty three_items (Some (FieldGetter ''Id'')) Ascending = Returned xa
      \<and> Reverse SortableItems xa = Returned (rev xa)
      \<and> Sort Map.empty three_items (Some (FieldGetter ''Id'')) Descending = Returned (rev xa)"
proof -
  have nonempty: "three_items \<noteq> []" by (simp add: three_items_def)
  have getter: "(Some (FieldGetter ''Id'') = None \<or> Some (FieldGetter ''Id'') = Some SimpleGetter)
        \<and> [''Id''] = []
      \<or> (\<exists>name. Some (FieldGetter ''Id'') = Some (FieldGetter name) \<and> [''Id''] = [name])"
    by blast
  have ints: "Kind_of (VInt B64 2) \<in> {IntK, Int8, Int16, Int32, Int64}" by simp
  have dist: "distinct (map (key_by Int_of [''Id'']) three_items)"
    by (simp add: three_items_def item_def key_by_def bnd_def)
  show ?thesis
    by (rule Ascending_then_Reverse_is_Descending_by_value
          [OF nonempty getter three_items_keys(1) three_items_keys(2) ints three_items_keys(3)
            dist])
qed


end
